theory Spec2Isabelle
  imports Main "HOL-Library.Word"
begin

section \<open>The JavaScript runtime environment (package jsre)\<close>

text \<open>
  The runtime owns one interpreter. A single goroutine, \<open>runEventLoop\<close>, is the only
  one that touches it: it serves evaluation requests, timer callbacks and the stop
  signal from one \<open>select\<close>. The interpreter itself (otto) is not part of the
  repository. A piece of script is therefore represented by what the loop can observe of
  it: the sequence of native timer functions it calls while it runs, and, for a timer
  callback, whether the call came back with an error.
\<close>

subsection \<open>Interpreter values\<close>

text \<open>
  The shapes of \<open>otto.Value\<close> that the Go code builds or inspects. \<open>TimerValue h\<close> is
  the value wrapping the pointer \<open>h\<close> to a \<open>jsTimer\<close> (what \<open>ToValue(timer)\<close> returns and
  what \<open>Export\<close> gives back); \<open>ObjectValue\<close> is an object with the given properties, in
  the order they were set.
\<close>

datatype Value =
    UndefinedValue
  | FalseValue
  | TrueValue
  | NumberValue int
  | StringValue string
  | FunctionValue nat
  | TimerValue nat
  | ObjectValue "(string \<times> Value) list"

record FunctionCall =
  ArgumentList :: "Value list"

text \<open>\<open>call.Argument(i)\<close>: the argument at the index, or undefined when there is none.\<close>

definition Argument :: "FunctionCall \<Rightarrow> nat \<Rightarrow> Value" where
  "Argument c i = (if i < length (ArgumentList c) then ArgumentList c ! i else UndefinedValue)"

text \<open>
  The interpreter's conversions are parameters of the model: \<open>ToInteger\<close> is the
  \<open>int64\<close> that \<open>Value.ToInteger\<close> returns (its error is discarded by the caller),
  \<open>ToString\<close> is \<open>None\<close> when \<open>Value.ToString\<close> returns an error.
\<close>

record otto =
  ToInteger :: "Value \<Rightarrow> 64 word"
  ToString :: "Value \<Rightarrow> string option"

subsection \<open>Timers\<close>

text \<open>
  \<open>timer\<close> is the state of the underlying \<open>*time.Timer\<close>: \<open>Some d\<close> while it is armed
  to expire after \<open>d\<close>, \<open>None\<close> once it has expired or has been stopped. Durations are
  \<open>time.Duration\<close>, a signed 64-bit count of nanoseconds.
\<close>

record jsTimer =
  timer :: "64 word option"
  duration :: "64 word"
  interval :: bool
  call :: FunctionCall

definition Millisecond :: "64 word" where
  "Millisecond = 1000000"

text \<open>What the loop does that can be seen from outside, in the order it does it.\<close>

datatype obs =
    Call nat "Value option list"
  | Println string "Value option list"
  | Ran nat
  | Closed nat

text \<open>
  The variables of \<open>runEventLoop\<close>. Pointers to \<open>jsTimer\<close> are natural numbers,
  \<open>heap\<close> holds the objects allocated so far and \<open>allocated\<close> is the next fresh
  pointer. \<open>registry\<close> is the key set of the Go map (every key maps to itself).
  \<open>ready\<close> lists the timers whose expiry function is blocked in \<open>ready <- timer\<close>.
  \<open>exited\<close> holds once \<open>loopWg.Done()\<close> has run.
\<close>

record loop =
  heap :: "nat \<Rightarrow> jsTimer option"
  allocated :: nat
  registry :: "nat set"
  ready :: "nat list"
  waitForCallbacks :: bool
  exited :: bool
  observed :: "obs list"

definition New :: loop where
  "New = \<lparr>heap = (\<lambda>h. None), allocated = 0, registry = {}, ready = [],
          waitForCallbacks = False, exited = False, observed = []\<rparr>"

definition clamp_delay :: "64 word \<Rightarrow> 64 word" where
  "clamp_delay delay = (if 0 \<ge> sint delay then 1 else delay)"

definition newTimer :: "otto \<Rightarrow> FunctionCall \<Rightarrow> bool \<Rightarrow> loop \<Rightarrow> nat \<times> Value \<times> loop" where
  "newTimer vm c iv s =
     (let delay = clamp_delay (ToInteger vm (Argument c 1));
          d = delay * Millisecond;
          h = allocated s;
          t = \<lparr>timer = Some d, duration = d, interval = iv, call = c\<rparr>
      in (h, TimerValue h,
          s\<lparr>heap := (heap s)(h := Some t), allocated := Suc h,
            registry := insert h (registry s)\<rparr>))"

definition setTimeout :: "otto \<Rightarrow> FunctionCall \<Rightarrow> loop \<Rightarrow> Value \<times> loop" where
  "setTimeout vm c s = snd (newTimer vm c False s)"

definition setInterval :: "otto \<Rightarrow> FunctionCall \<Rightarrow> loop \<Rightarrow> Value \<times> loop" where
  "setInterval vm c s = snd (newTimer vm c True s)"

text \<open>\<open>timer.timer.Stop()\<close> and \<open>timer.timer.Reset(timer.duration)\<close> on the object at \<open>h\<close>.\<close>

definition Stop_timer :: "nat \<Rightarrow> (nat \<Rightarrow> jsTimer option) \<Rightarrow> (nat \<Rightarrow> jsTimer option)" where
  "Stop_timer h hp = (case hp h of None \<Rightarrow> hp | Some t \<Rightarrow> hp(h := Some (t\<lparr>timer := None\<rparr>)))"

definition Reset_timer :: "nat \<Rightarrow> (nat \<Rightarrow> jsTimer option) \<Rightarrow> (nat \<Rightarrow> jsTimer option)" where
  "Reset_timer h hp =
     (case hp h of None \<Rightarrow> hp | Some t \<Rightarrow> hp(h := Some (t\<lparr>timer := Some (duration t)\<rparr>)))"

text \<open>
  \<open>clearTimeout\<close> (also bound as \<open>clearInterval\<close>): only a value that exports to a
  \<open>*jsTimer\<close> has an effect.
\<close>

definition clearTimeout :: "FunctionCall \<Rightarrow> loop \<Rightarrow> Value \<times> loop" where
  "clearTimeout c s =
     (case Argument c 0 of
        TimerValue h \<Rightarrow>
          (UndefinedValue, s\<lparr>heap := Stop_timer h (heap s), registry := registry s - {h}\<rparr>)
      | _ \<Rightarrow> (UndefinedValue, s))"

text \<open>The native timer functions a running script may call, with the call it makes.\<close>

datatype builtin =
    CallSetTimeout FunctionCall
  | CallSetInterval FunctionCall
  | CallClearTimeout FunctionCall

fun run_builtin :: "otto \<Rightarrow> builtin \<Rightarrow> loop \<Rightarrow> loop" where
  "run_builtin vm (CallSetTimeout c) s = snd (setTimeout vm c s)"
| "run_builtin vm (CallSetInterval c) s = snd (setInterval vm c s)"
| "run_builtin vm (CallClearTimeout c) s = snd (clearTimeout c s)"

fun run_script :: "otto \<Rightarrow> builtin list \<Rightarrow> loop \<Rightarrow> loop" where
  "run_script vm [] s = s"
| "run_script vm (b # bs) s = run_script vm bs (run_builtin vm b s)"

subsection \<open>The argument list of a timer callback\<close>

datatype fault = IndexOutOfRange | Blocked

text \<open>
  The slice built in the timer case of the loop. An element is \<open>None\<close> where the
  \<open>[]interface{}\<close> holds \<open>nil\<close>. \<open>copy_bound\<close> is the \<open>for i, value := range tmp\<close>
  loop, started at index \<open>i\<close>.
\<close>

fun copy_bound :: "nat \<Rightarrow> Value list \<Rightarrow> Value option list \<Rightarrow> Value option list" where
  "copy_bound i [] arguments = arguments"
| "copy_bound i (v # tmp) arguments = copy_bound (Suc i) tmp (arguments[i + 2 := Some v])"

definition make_arguments :: "Value list \<Rightarrow> fault + Value option list" where
  "make_arguments al =
     (let arguments =
            (if length al > 2
             then (let tmp = drop 2 al in copy_bound 0 tmp (replicate (2 + length tmp) None))
             else replicate 1 None)
      in if 0 < length al then Inr (arguments[0 := Some (al ! 0)]) else Inl IndexOutOfRange)"

subsection \<open>The event loop\<close>

text \<open>
  One event is one communication of the loop, or the expiry of an armed timer, which
  happens on the Go runtime's side: \<open>Expire h\<close> starts the function given to
  \<open>time.AfterFunc\<close>, which then waits to send \<open>h\<close> on \<open>ready\<close>. \<open>TimerReady h bs e\<close> is the
  loop receiving \<open>h\<close> from \<open>ready\<close>; the callback calls the native functions \<open>bs\<close> and
  \<open>vm.Call\<close> returns the error \<open>e\<close>. \<open>EvalReq r bs\<close> is the loop receiving a request
  whose \<open>done\<close> channel is \<open>r\<close> and whose function calls \<open>bs\<close>. \<open>StopSignal w\<close> is the
  loop receiving \<open>w\<close> from \<open>stopEventLoop\<close>.
\<close>

datatype event =
    Expire nat
  | TimerReady nat "builtin list" "string option"
  | EvalReq nat "builtin list"
  | StopSignal bool

text \<open>The code after the loop: stop and delete every registered timer, then \<open>Done\<close>.\<close>

definition finish :: "loop \<Rightarrow> loop" where
  "finish s =
     s\<lparr>heap := (\<lambda>h. if h \<in> registry s then map_option (\<lambda>t. t\<lparr>timer := None\<rparr>) (heap s h)
                     else heap s h),
       registry := {}, exited := True\<rparr>"

definition break_if_drained :: "loop \<Rightarrow> loop" where
  "break_if_drained s = (if waitForCallbacks s \<and> registry s = {} then finish s else s)"

definition report :: "string option \<Rightarrow> Value option list \<Rightarrow> loop \<Rightarrow> loop" where
  "report e arguments s =
     (case e of None \<Rightarrow> s | Some msg \<Rightarrow> s\<lparr>observed := observed s @ [Println msg arguments]\<rparr>)"

text \<open>
  The three cases of the \<open>select\<close>. In the timer case the loop holds the pointer it
  received, so the object is always there; \<open>interval\<close>, \<open>duration\<close> and \<open>call\<close> are
  never assigned after \<open>newTimer\<close>, so reading them before or after the callback gives
  the same. A scheduling call without arguments makes \<open>ArgumentList[0]\<close> fail.
\<close>

definition timer_case :: "otto \<Rightarrow> nat \<Rightarrow> builtin list \<Rightarrow> string option \<Rightarrow> loop \<Rightarrow> fault + loop" where
  "timer_case vm h bs e s =
     (case heap s h of
        None \<Rightarrow> Inl Blocked
      | Some t \<Rightarrow>
          (case make_arguments (ArgumentList (call t)) of
             Inl f \<Rightarrow> Inl f
           | Inr arguments \<Rightarrow>
               (let s1 = s\<lparr>ready := remove1 h (ready s), observed := observed s @ [Call h arguments]\<rparr>;
                    s2 = run_script vm bs s1;
                    s3 = report e arguments s2
                in if interval t
                   then Inr (s3\<lparr>heap := Reset_timer h (heap s3)\<rparr>)
                   else Inr (break_if_drained (s3\<lparr>registry := registry s3 - {h}\<rparr>)))))"

definition eval_case :: "otto \<Rightarrow> nat \<Rightarrow> builtin list \<Rightarrow> loop \<Rightarrow> loop" where
  "eval_case vm r bs s =
     (let s1 = run_script vm bs s;
          s2 = s1\<lparr>observed := observed s1 @ [Ran r]\<rparr>;
          s3 = s2\<lparr>observed := observed s2 @ [Closed r]\<rparr>
      in break_if_drained s3)"

definition stop_case :: "bool \<Rightarrow> loop \<Rightarrow> loop" where
  "stop_case w s =
     (let s1 = s\<lparr>waitForCallbacks := w\<rparr>
      in if \<not> waitForCallbacks s1 \<or> registry s1 = {} then finish s1 else s1)"

text \<open>
  One event. \<open>Blocked\<close> is returned where the communication cannot take place: the loop
  has exited, the timer is not armed, or nothing is waiting to send that timer.
\<close>

fun step :: "otto \<Rightarrow> loop \<Rightarrow> event \<Rightarrow> fault + loop" where
  "step vm s (Expire h) =
     (case heap s h of
        None \<Rightarrow> Inl Blocked
      | Some t \<Rightarrow>
          (if timer t = None then Inl Blocked
           else Inr (s\<lparr>heap := (heap s)(h := Some (t\<lparr>timer := None\<rparr>)), ready := ready s @ [h]\<rparr>)))"
| "step vm s (TimerReady h bs e) =
     (if exited s \<or> h \<notin> set (ready s) then Inl Blocked else timer_case vm h bs e s)"
| "step vm s (EvalReq r bs) =
     (if exited s then Inl Blocked else Inr (eval_case vm r bs s))"
| "step vm s (StopSignal w) =
     (if exited s then Inl Blocked else Inr (stop_case w s))"

fun runEventLoop :: "otto \<Rightarrow> loop \<Rightarrow> event list \<Rightarrow> fault + loop" where
  "runEventLoop vm s [] = Inr s"
| "runEventLoop vm s (e # es) =
     (case step vm s e of Inl f \<Rightarrow> Inl f | Inr s' \<Rightarrow> runEventLoop vm s' es)"

subsection \<open>The blocking entry points\<close>

text \<open>
  \<open>do\<close> and the loop, step by step. The caller of \<open>do\<close> stands before its send on
  \<open>evalQueue\<close>, before its receive from \<open>done\<close>, or has returned. The loop is in its
  \<open>select\<close>, inside \<open>req.fn(vm)\<close>, between the return of the function and
  \<open>close(req.done)\<close>, or between the close and the check that follows it.
\<close>

datatype caller = AtSend | AtReceive | Returned

datatype serving = Selecting | Running | FnReturned | DoneClosed

text \<open>
  \<open>Handoff\<close> is the send of \<open>do\<close> meeting the receive of the loop. \<open>FnReturn\<close> is
  the function of the request returning, with the effect of its script. \<open>CloseDone\<close> is
  \<open>close(req.done)\<close>, \<open>DrainCheck\<close> the \<open>if\<close> after it. \<open>ReturnDo\<close> is the receive
  from \<open>done\<close> in \<open>do\<close>: nothing is ever sent on that channel, so it completes only
  once the channel is closed. \<open>Loop e\<close> is any other event of the loop; while the loop
  is serving the request, only a timer expiry can happen.
\<close>

datatype do_event = Handoff | FnReturn | CloseDone | DrainCheck | ReturnDo | Loop event

text \<open>
  The request has \<open>done\<close> channel \<open>r\<close>. Its function \<open>fn\<close> is \<open>Some bs\<close> when it
  returns after calling \<open>bs\<close>, and \<open>None\<close> when it never returns.
\<close>

fun do_step ::
  "otto \<Rightarrow> nat \<Rightarrow> builtin list option \<Rightarrow> caller \<times> serving \<times> loop \<Rightarrow> do_event \<Rightarrow>
     fault + caller \<times> serving \<times> loop" where
  "do_step vm r fn (pc, ph, s) Handoff =
     (if pc = AtSend \<and> ph = Selecting \<and> \<not> exited s then Inr (AtReceive, Running, s)
      else Inl Blocked)"
| "do_step vm r fn (pc, ph, s) FnReturn =
     (case fn of
        None \<Rightarrow> Inl Blocked
      | Some bs \<Rightarrow>
          (if ph = Running
           then (let s1 = run_script vm bs s
                 in Inr (pc, FnReturned, s1\<lparr>observed := observed s1 @ [Ran r]\<rparr>))
           else Inl Blocked))"
| "do_step vm r fn (pc, ph, s) CloseDone =
     (if ph = FnReturned then Inr (pc, DoneClosed, s\<lparr>observed := observed s @ [Closed r]\<rparr>)
      else Inl Blocked)"
| "do_step vm r fn (pc, ph, s) DrainCheck =
     (if ph = DoneClosed then Inr (pc, Selecting, break_if_drained s) else Inl Blocked)"
| "do_step vm r fn (pc, ph, s) ReturnDo =
     (if pc = AtReceive \<and> Closed r \<in> set (observed s) then Inr (Returned, ph, s)
      else Inl Blocked)"
| "do_step vm r fn (pc, ph, s) (Loop e) =
     (if ph = Selecting \<or> (case e of Expire h \<Rightarrow> True | _ \<Rightarrow> False)
      then (case step vm s e of Inl f \<Rightarrow> Inl f | Inr s' \<Rightarrow> Inr (pc, ph, s'))
      else Inl Blocked)"

fun do_run ::
  "otto \<Rightarrow> nat \<Rightarrow> builtin list option \<Rightarrow> caller \<times> serving \<times> loop \<Rightarrow> do_event list \<Rightarrow>
     fault + caller \<times> serving \<times> loop" where
  "do_run vm r fn c [] = Inr c"
| "do_run vm r fn c (ev # evs) =
     (case do_step vm r fn c ev of Inl f \<Rightarrow> Inl f | Inr c' \<Rightarrow> do_run vm r fn c' evs)"

text \<open>The events of the loop among those of a run of \<open>do\<close>.\<close>

fun other_events :: "do_event list \<Rightarrow> event list" where
  "other_events [] = []"
| "other_events (Loop e # evs) = e # other_events evs"
| "other_events (ev # evs) = other_events evs"

text \<open>
  \<open>Stop\<close> sends the flag and waits for \<open>loopWg\<close>; \<open>es\<close> are the events the loop
  goes through while \<open>Stop\<close> waits.
\<close>

definition JSRE_Stop :: "otto \<Rightarrow> bool \<Rightarrow> event list \<Rightarrow> loop \<Rightarrow> fault + loop" where
  "JSRE_Stop vm w es s =
     (case runEventLoop vm s (StopSignal w # es) of
        Inl f \<Rightarrow> Inl f
      | Inr s' \<Rightarrow> if exited s' then Inr s' else Inl Blocked)"

subsection \<open>Reading the record of a run\<close>

text \<open>How often the callback of timer \<open>h\<close> was invoked.\<close>

fun calls_of :: "nat \<Rightarrow> obs list \<Rightarrow> nat" where
  "calls_of h [] = 0"
| "calls_of h (Call h' arguments # os) = (if h' = h then 1 else 0) + calls_of h os"
| "calls_of h (_ # os) = calls_of h os"

text \<open>How often the loop received the request with \<open>done\<close> channel \<open>r\<close>.\<close>

fun requests_of :: "nat \<Rightarrow> event list \<Rightarrow> nat" where
  "requests_of r [] = 0"
| "requests_of r (EvalReq r' bs # es) = (if r' = r then 1 else 0) + requests_of r es"
| "requests_of r (_ # es) = requests_of r es"

text \<open>Whether a script calls \<open>clearTimeout\<close> or \<open>clearInterval\<close> on timer \<open>h\<close>.\<close>

fun cancels :: "nat \<Rightarrow> builtin list \<Rightarrow> bool" where
  "cancels h [] = False"
| "cancels h (CallClearTimeout c # bs) = (Argument c 0 = TimerValue h \<or> cancels h bs)"
| "cancels h (_ # bs) = cancels h bs"

text \<open>The script an event runs, if it runs one.\<close>

fun script_of :: "event \<Rightarrow> builtin list" where
  "script_of (TimerReady h bs e) = bs"
| "script_of (EvalReq r bs) = bs"
| "script_of e = []"

text \<open>
  The loop calls the interpreter's \<open>Function.call.call\<close> with the slice. In
  JavaScript that applies \<open>Function.prototype.call\<close> to the first element: the first
  element is the function invoked, the second its receiver, the rest its arguments.
\<close>

fun invocation :: "Value option list \<Rightarrow> Value option \<times> Value option \<times> Value option list" where
  "invocation [] = (None, None, [])"
| "invocation [f] = (f, None, [])"
| "invocation (f # this # args) = (f, this, args)"

subsection \<open>Invariant of the loop\<close>

definition armed :: "jsTimer \<Rightarrow> nat" where
  "armed t = (if timer t = None then 0 else 1)"

text \<open>
  Pointers are handed out in order, and a one-shot timer is in at most one of three
  places: armed, waiting to be received from \<open>ready\<close>, or already called.
\<close>

definition timer_ok :: "loop \<Rightarrow> nat \<Rightarrow> bool" where
  "timer_ok s h =
     (case heap s h of
        None \<Rightarrow> allocated s \<le> h \<and> h \<notin> set (ready s) \<and> calls_of h (observed s) = 0
      | Some t \<Rightarrow>
          h < allocated s \<and>
          (interval t \<or> armed t + count_list (ready s) h + calls_of h (observed s) \<le> 1))"

definition loop_inv :: "loop \<Rightarrow> bool" where
  "loop_inv s = (\<forall>h. timer_ok s h)"

text \<open>
  The record of a run in which \<open>done\<close> channel \<open>r\<close> was closed once, right after the
  function of its request returned.
\<close>

definition closed_once :: "nat \<Rightarrow> obs list \<Rightarrow> bool" where
  "closed_once r os =
     (\<exists>xs ys. os = xs @ Ran r # Closed r # ys \<and> Closed r \<notin> set xs \<and> Closed r \<notin> set ys)"

text \<open>Where the caller can stand, and what the record holds, in each phase of the loop.\<close>

fun do_inv :: "nat \<Rightarrow> builtin list option \<Rightarrow> caller \<times> serving \<times> loop \<Rightarrow> bool" where
  "do_inv r fn (pc, Selecting, s) =
     (if pc = AtSend then Closed r \<notin> set (observed s)
      else fn \<noteq> None \<and> closed_once r (observed s))"
| "do_inv r fn (pc, Running, s) = (pc = AtReceive \<and> Closed r \<notin> set (observed s))"
| "do_inv r fn (pc, FnReturned, s) =
     (pc = AtReceive \<and> fn \<noteq> None \<and>
      (\<exists>xs. observed s = xs @ [Ran r] \<and> Closed r \<notin> set xs))"
| "do_inv r fn (pc, DoneClosed, s) =
     (pc \<noteq> AtSend \<and> fn \<noteq> None \<and>
      (\<exists>xs. observed s = xs @ [Ran r, Closed r] \<and> Closed r \<notin> set xs))"

subsection \<open>Shell execution\<close>

text \<open>
  What the host gives back for \<open>exec.Command("sh", "-c", cmd)\<close>: the writes of the
  command to its standard output and standard error, in the order they were made, and
  the text \<open>err.Error()\<close> of the error the run returned (\<open>None\<close> for \<open>err == nil\<close>).
  \<open>CombinedOutput\<close> gives both streams the same buffer.
\<close>

datatype stream = Stdout | Stderr

record process =
  written :: "(stream \<times> string) list"
  failure :: "string option"

definition CombinedOutput :: "process \<Rightarrow> string \<times> string option" where
  "CombinedOutput p = (concat (map snd (written p)), failure p)"

definition stream_text :: "stream \<Rightarrow> process \<Rightarrow> string" where
  "stream_text st p = concat (map snd (filter (\<lambda>w. fst w = st) (written p)))"

definition shellExec :: "otto \<Rightarrow> (string \<Rightarrow> process) \<Rightarrow> FunctionCall \<Rightarrow> Value" where
  "shellExec vm sh c =
     (case ToString vm (Argument c 0) of
        None \<Rightarrow> FalseValue
      | Some cmd \<Rightarrow>
          (case CombinedOutput (sh cmd) of
             (stdout, err) \<Rightarrow>
               (let stderr = (case err of None \<Rightarrow> [] | Some msg \<Rightarrow> msg)
                in ObjectValue [(''stdout'', StringValue stdout), (''stderr'', StringValue stderr)])))"

subsection \<open>Files\<close>

text \<open>
  The host's files as \<open>ioutil.ReadFile\<close> and \<open>ioutil.WriteFile\<close> see them: a content
  for each existing path, and the paths that cannot be opened for writing. A result is
  \<open>Inl\<close> of the error text or \<open>Inr\<close> of the value.
\<close>

record filesystem =
  files :: "string \<Rightarrow> string option"
  unwritable :: "string set"

definition ReadFile :: "string \<Rightarrow> filesystem \<Rightarrow> string + string" where
  "ReadFile name f = (case files f name of None \<Rightarrow> Inl ''no such file'' | Some b \<Rightarrow> Inr b)"

definition WriteFile :: "string \<Rightarrow> string \<Rightarrow> filesystem \<Rightarrow> string + filesystem" where
  "WriteFile name b f =
     (if name \<in> unwritable f then Inl ''cannot open for writing''
      else Inr (f\<lparr>files := (files f)(name := Some b)\<rparr>))"

text \<open>
  \<open>readFile\<close> drops the error of \<open>ToString\<close>; the string that comes with an error is
  empty.
\<close>

definition readFile :: "otto \<Rightarrow> FunctionCall \<Rightarrow> filesystem \<Rightarrow> Value" where
  "readFile vm c f =
     (let file = (case ToString vm (Argument c 0) of None \<Rightarrow> [] | Some p \<Rightarrow> p)
      in case ReadFile file f of Inl err \<Rightarrow> FalseValue | Inr contents \<Rightarrow> StringValue contents)"

definition writeFile :: "otto \<Rightarrow> FunctionCall \<Rightarrow> filesystem \<Rightarrow> Value \<times> filesystem" where
  "writeFile vm c f =
     (case ToString vm (Argument c 0) of
        None \<Rightarrow> (FalseValue, f)
      | Some file \<Rightarrow>
          (case ToString vm (Argument c 1) of
             None \<Rightarrow> (FalseValue, f)
           | Some content \<Rightarrow>
               (case WriteFile file content f of
                  Inl err \<Rightarrow> (FalseValue, f)
                | Inr f' \<Rightarrow> (TrueValue, f'))))"

subsection \<open>Values for the examples\<close>

text \<open>
  An interpreter for the examples: a number converts to its integer and a string to
  itself; the other conversions are not used.
\<close>

definition example_vm :: otto where
  "example_vm =
     \<lparr>ToInteger = (\<lambda>v. case v of NumberValue n \<Rightarrow> word_of_int n | _ \<Rightarrow> 0),
      ToString = (\<lambda>v. case v of StringValue s \<Rightarrow> Some s | _ \<Rightarrow> None)\<rparr>"

definition cb :: Value where
  "cb = FunctionValue 0"

definition schedule :: "int \<Rightarrow> FunctionCall" where
  "schedule ms = \<lparr>ArgumentList = [cb, NumberValue ms]\<rparr>"

definition clear :: "nat \<Rightarrow> FunctionCall" where
  "clear h = \<lparr>ArgumentList = [TimerValue h]\<rparr>"

definition bound_call :: FunctionCall where
  "bound_call = \<lparr>ArgumentList = [cb, NumberValue 0, StringValue ''x'']\<rparr>"

text \<open>
  The state of a loop driven by the example interpreter after the events \<open>es\<close>
  (\<open>New\<close> when they cannot all take place).
\<close>

definition state_after :: "event list \<Rightarrow> loop" where
  "state_after es = (case runEventLoop example_vm New es of Inl f \<Rightarrow> New | Inr s \<Rightarrow> s)"

text \<open>A host on which \<open>echo hi\<close> succeeds and every other command exits with status 2.\<close>

definition example_sh :: "string \<Rightarrow> process" where
  "example_sh cmd =
     (if cmd = ''echo hi'' then \<lparr>written = [(Stdout, ''hi'')], failure = None\<rparr>
      else \<lparr>written = [(Stdout, ''listing''), (Stderr, ''No such file or directory'')],
            failure = Some ''exit status 2''\<rparr>)"

definition example_files :: filesystem where
  "example_files = \<lparr>files = (\<lambda>p. None), unwritable = {''/''}\<rparr>"

section \<open>Properties\<close>

subsection \<open>Scripts and the invariant\<close>

lemma copy_bound_eq:
  "i + 2 + length tmp \<le> length arguments \<Longrightarrow>
     copy_bound i tmp arguments =
       take (i + 2) arguments @ map Some tmp @ drop (i + 2 + length tmp) arguments"
proof (induction tmp arbitrary: i arguments)
  case Nil
  then show ?case by simp
next
  case (Cons v tmp)
  have len: "Suc i + 2 + length tmp \<le> length (arguments[i + 2 := Some v])"
    using Cons.prems by simp
  have "copy_bound i (v # tmp) arguments = copy_bound (Suc i) tmp (arguments[i + 2 := Some v])"
    by simp
  also have "\<dots> = take (Suc i + 2) (arguments[i + 2 := Some v]) @ map Some tmp @
                      drop (Suc i + 2 + length tmp) (arguments[i + 2 := Some v])"
    by (rule Cons.IH [OF len])
  also have "take (Suc i + 2) (arguments[i + 2 := Some v]) = take (i + 2) arguments @ [Some v]"
    using Cons.prems by (simp add: take_Suc_conv_app_nth)
  also have "drop (Suc i + 2 + length tmp) (arguments[i + 2 := Some v]) =
               drop (i + 2 + length (v # tmp)) arguments"
    by simp
  finally show ?case by simp
qed

lemma make_arguments_eq:
  assumes "al \<noteq> []"
  shows "make_arguments al =
           Inr (if 2 < length al then Some (al ! 0) # None # map Some (drop 2 al)
                else [Some (al ! 0)])"
proof (cases "2 < length al")
  case True
  have "copy_bound 0 (drop 2 al) (replicate (2 + length (drop 2 al)) None) =
          [None, None] @ map Some (drop 2 al)"
    by (subst copy_bound_eq) (simp_all add: numeral_2_eq_2)
  with True assms show ?thesis
    by (simp add: make_arguments_def Let_def)
next
  case False
  with assms show ?thesis
    by (simp add: make_arguments_def Let_def)
qed

lemma make_arguments_Nil: "make_arguments [] = Inl IndexOutOfRange"
  by (simp add: make_arguments_def)

lemma make_arguments_InrD: "make_arguments al = Inr arguments \<Longrightarrow> al \<noteq> []"
  by (auto simp: make_arguments_Nil)


lemma run_builtin_frame:
  "observed (run_builtin vm b s) = observed s \<and> ready (run_builtin vm b s) = ready s \<and>
   exited (run_builtin vm b s) = exited s \<and>
   waitForCallbacks (run_builtin vm b s) = waitForCallbacks s"
  by (cases b)
    (auto simp: setTimeout_def setInterval_def newTimer_def clearTimeout_def Let_def
      split: Value.splits)

lemma run_script_frame:
  "observed (run_script vm bs s) = observed s \<and> ready (run_script vm bs s) = ready s \<and>
   exited (run_script vm bs s) = exited s \<and>
   waitForCallbacks (run_script vm bs s) = waitForCallbacks s"
  by (induction bs arbitrary: s) (simp_all add: run_builtin_frame)

lemma newTimer_inv:
  assumes "loop_inv s"
  shows "loop_inv (snd (snd (newTimer vm c iv s)))"
proof -
  let ?h0 = "allocated s"
  have none: "heap s ?h0 = None"
    using assms by (auto simp: loop_inv_def timer_ok_def split: option.splits dest!: spec [of _ ?h0])
  have fresh: "?h0 \<notin> set (ready s)" "calls_of ?h0 (observed s) = 0"
    using assms none by (auto simp: loop_inv_def timer_ok_def split: option.splits dest!: spec [of _ ?h0])
  show ?thesis
    unfolding loop_inv_def
  proof
    fix h
    have ok: "timer_ok s h"
      using assms by (simp add: loop_inv_def)
    show "timer_ok (snd (snd (newTimer vm c iv s))) h"
    proof (cases "h = ?h0")
      case True
      with fresh show ?thesis
        by (simp add: timer_ok_def newTimer_def Let_def armed_def)
    next
      case False
      with ok show ?thesis
        by (auto simp: timer_ok_def newTimer_def Let_def split: option.splits)
    qed
  qed
qed

lemma clearTimeout_inv:
  assumes "loop_inv s"
  shows "loop_inv (snd (clearTimeout c s))"
  unfolding loop_inv_def
proof
  fix h
  have ok: "timer_ok s h"
    using assms by (simp add: loop_inv_def)
  show "timer_ok (snd (clearTimeout c s)) h"
    using ok
    by (auto simp: timer_ok_def clearTimeout_def Stop_timer_def armed_def
        split: option.splits Value.splits)
qed

lemma run_builtin_inv: "loop_inv s \<Longrightarrow> loop_inv (run_builtin vm b s)"
  by (cases b) (simp_all add: setTimeout_def setInterval_def newTimer_inv clearTimeout_inv)

lemma run_script_inv: "loop_inv s \<Longrightarrow> loop_inv (run_script vm bs s)"
  by (induction bs arbitrary: s) (simp_all add: run_builtin_inv)


lemma run_builtin_fields:
  assumes "heap s h = Some t" and "h < allocated s"
  shows "h < allocated (run_builtin vm b s) \<and>
         (\<exists>t'. heap (run_builtin vm b s) h = Some t' \<and> duration t' = duration t \<and>
               interval t' = interval t \<and> call t' = call t)"
  using assms
  by (cases b)
    (auto simp: setTimeout_def setInterval_def newTimer_def clearTimeout_def Stop_timer_def
      Let_def split: Value.splits option.splits)

lemma run_script_fields:
  assumes "heap s h = Some t" and "h < allocated s"
  shows "h < allocated (run_script vm bs s) \<and>
         (\<exists>t'. heap (run_script vm bs s) h = Some t' \<and> duration t' = duration t \<and>
               interval t' = interval t \<and> call t' = call t)"
  using assms
proof (induction bs arbitrary: s t)
  case Nil
  then show ?case by simp
next
  case (Cons b bs)
  from run_builtin_fields [OF Cons.prems, of vm b]
  obtain t1 where t1: "heap (run_builtin vm b s) h = Some t1"
      "h < allocated (run_builtin vm b s)"
      "duration t1 = duration t" "interval t1 = interval t" "call t1 = call t"
    by blast
  from Cons.IH [OF t1(1) t1(2)] t1(3-5) show ?case
    by simp
qed

lemma run_builtin_registry:
  assumes "h < allocated s"
  shows "h < allocated (run_builtin vm b s) \<and>
         (h \<in> registry (run_builtin vm b s) \<longleftrightarrow> h \<in> registry s \<and> \<not> cancels h [b])"
  using assms
  by (cases b)
    (auto simp: setTimeout_def setInterval_def newTimer_def clearTimeout_def Let_def
      split: Value.splits)

lemma cancels_Cons: "cancels h (b # bs) \<longleftrightarrow> cancels h [b] \<or> cancels h bs"
  by (cases b) simp_all

lemma run_script_registry:
  assumes "h < allocated s"
  shows "h \<in> registry (run_script vm bs s) \<longleftrightarrow> h \<in> registry s \<and> \<not> cancels h bs"
  using assms
proof (induction bs arbitrary: s)
  case Nil
  then show ?case by simp
next
  case (Cons b bs)
  from run_builtin_registry [OF Cons.prems, of vm b]
  have 1: "h < allocated (run_builtin vm b s)"
    and 2: "h \<in> registry (run_builtin vm b s) \<longleftrightarrow> h \<in> registry s \<and> \<not> cancels h [b]"
    by blast+
  from Cons.IH [OF 1] 2 show ?case
    by (simp add: cancels_Cons [of h b bs])
qed

lemma calls_of_append: "calls_of h (xs @ ys) = calls_of h xs + calls_of h ys"
  by (induction h xs rule: calls_of.induct) simp_all

lemma count_list_remove1:
  "x \<in> set xs \<Longrightarrow> count_list xs y = count_list (remove1 x xs) y + (if x = y then 1 else 0)"
  by (induction xs) auto

lemma finish_inv:
  assumes "loop_inv s"
  shows "loop_inv (finish s)"
  unfolding loop_inv_def
proof
  fix h
  have "timer_ok s h"
    using assms by (simp add: loop_inv_def)
  then show "timer_ok (finish s) h"
    by (auto simp: timer_ok_def finish_def armed_def split: option.splits)
qed

lemma break_if_drained_inv: "loop_inv s \<Longrightarrow> loop_inv (break_if_drained s)"
  by (simp add: break_if_drained_def finish_inv)

lemma inv_frame:
  assumes "loop_inv s" and "heap s' = heap s" and "allocated s' = allocated s"
    and "ready s' = ready s" and "\<And>h. calls_of h (observed s') = calls_of h (observed s)"
  shows "loop_inv s'"
  using assms by (simp add: loop_inv_def timer_ok_def cong: option.case_cong)

lemma report_inv: "loop_inv s \<Longrightarrow> loop_inv (report e arguments s)"
  by (erule inv_frame) (simp_all add: report_def calls_of_append split: option.splits)


lemma New_inv: "loop_inv New"
  by (simp add: loop_inv_def timer_ok_def New_def)

lemma expire_inv:
  assumes "loop_inv s" and "step vm s (Expire h) = Inr s'"
  shows "loop_inv s'"
  unfolding loop_inv_def
proof
  fix k
  have ok: "timer_ok s k" "timer_ok s h"
    using assms(1) by (simp_all add: loop_inv_def)
  from assms(2) obtain t where t: "heap s h = Some t" "timer t \<noteq> None"
    and s': "s' = s\<lparr>heap := (heap s)(h := Some (t\<lparr>timer := None\<rparr>)), ready := ready s @ [h]\<rparr>"
    by (auto split: option.splits if_splits)
  show "timer_ok s' k"
  proof (cases "k = h")
    case True
    with ok(2) t show ?thesis
      by (auto simp: s' timer_ok_def armed_def)
  next
    case False
    with ok(1) t show ?thesis
      by (auto simp: s' timer_ok_def split: option.splits)
  qed
qed

lemma moved_once:
  fixes a a' c c' d x :: nat
  assumes "P \<or> x + a + c \<le> 1" and "a = a' + d" and "c' = c + d"
  shows "P \<or> x + a' + c' \<le> 1"
  using assms by auto

lemma received_inv:
  assumes "loop_inv s" and "h \<in> set (ready s)" and "heap s h = Some t"
  shows "loop_inv (s\<lparr>ready := remove1 h (ready s), observed := observed s @ [Call h arguments]\<rparr>)"
  unfolding loop_inv_def
proof
  fix k
  let ?s1 = "s\<lparr>ready := remove1 h (ready s), observed := observed s @ [Call h arguments]\<rparr>"
  have ok: "timer_ok s k"
    using assms(1) by (simp add: loop_inv_def)
  have calls: "calls_of k (observed ?s1) = calls_of k (observed s) + (if h = k then 1 else 0)"
    by (simp add: calls_of_append)
  have cnt: "count_list (ready s) k = count_list (ready ?s1) k + (if h = k then 1 else 0)"
    using count_list_remove1 [OF assms(2), of k] by simp
  show "timer_ok ?s1 k"
  proof (cases "heap s k")
    case None
    with assms(3) have "h \<noteq> k" by auto
    moreover from None ok have "allocated s \<le> k" "k \<notin> set (ready s)" "calls_of k (observed s) = 0"
      by (simp_all add: timer_ok_def)
    moreover have "k \<notin> set (remove1 h (ready s))"
      using \<open>k \<notin> set (ready s)\<close> by (auto dest: notin_set_remove1)
    ultimately show ?thesis
      using None calls by (simp add: timer_ok_def)
  next
    case (Some u)
    with ok have lt: "k < allocated s"
      and le: "interval u \<or> armed u + count_list (ready s) k + calls_of k (observed s) \<le> 1"
      by (simp_all add: timer_ok_def)
    have "interval u \<or> armed u + count_list (ready ?s1) k + calls_of k (observed ?s1) \<le> 1"
      by (rule moved_once [OF le cnt calls])
    with Some lt show ?thesis
      by (simp add: timer_ok_def)
  qed
qed

lemma reset_inv:
  assumes "loop_inv s" and "heap s h = Some t" and "interval t"
  shows "loop_inv (s\<lparr>heap := Reset_timer h (heap s)\<rparr>)"
  unfolding loop_inv_def
proof
  fix k
  have "timer_ok s k"
    using assms(1) by (simp add: loop_inv_def)
  with assms(2,3) show "timer_ok (s\<lparr>heap := Reset_timer h (heap s)\<rparr>) k"
    by (auto simp: timer_ok_def Reset_timer_def split: option.splits)
qed

lemma unregister_inv: "loop_inv s \<Longrightarrow> loop_inv (s\<lparr>registry := R\<rparr>)"
  by (erule inv_frame) simp_all

lemma inv_allocated: "loop_inv s \<Longrightarrow> heap s h = Some t \<Longrightarrow> h < allocated s"
  by (auto simp: loop_inv_def timer_ok_def split: option.splits dest!: spec [of _ h])

lemma timer_case_inv:
  assumes "loop_inv s" and "h \<in> set (ready s)" and "timer_case vm h bs e s = Inr s'"
  shows "loop_inv s'"
proof -
  from assms(3) obtain t arguments where t: "heap s h = Some t"
    and a: "make_arguments (ArgumentList (call t)) = Inr arguments"
    by (auto simp: timer_case_def split: option.splits sum.splits)
  let ?s1 = "s\<lparr>ready := remove1 h (ready s), observed := observed s @ [Call h arguments]\<rparr>"
  let ?s3 = "report e arguments (run_script vm bs ?s1)"
  have inv3: "loop_inv ?s3"
    by (intro report_inv run_script_inv received_inv [OF assms(1,2) t])
  have "heap ?s1 h = Some t" "h < allocated ?s1"
    using t inv_allocated [OF assms(1) t] by simp_all
  from run_script_fields [OF this, of vm bs]
  obtain t2 where "heap (run_script vm bs ?s1) h = Some t2" "interval t2 = interval t"
    by blast
  then have t3: "heap ?s3 h = Some t2" "interval t2 = interval t"
    by (simp_all add: report_def split: option.splits)
  show ?thesis
  proof (cases "interval t")
    case True
    with assms(3) t a have "s' = ?s3\<lparr>heap := Reset_timer h (heap ?s3)\<rparr>"
      by (simp add: timer_case_def Let_def)
    with reset_inv [OF inv3 t3(1)] t3(2) True show ?thesis
      by simp
  next
    case False
    with assms(3) t a have "s' = break_if_drained (?s3\<lparr>registry := registry ?s3 - {h}\<rparr>)"
      by (simp add: timer_case_def Let_def)
    with inv3 show ?thesis
      by (simp add: break_if_drained_inv unregister_inv)
  qed
qed

lemma eval_case_inv:
  assumes "loop_inv s"
  shows "loop_inv (eval_case vm r bs s)"
proof -
  let ?s1 = "run_script vm bs s"
  have "loop_inv (?s1\<lparr>observed := observed ?s1 @ [Ran r, Closed r]\<rparr>)"
    by (rule inv_frame [OF run_script_inv [OF assms]]) (simp_all add: calls_of_append)
  then show ?thesis
    by (simp add: eval_case_def Let_def break_if_drained_inv)
qed

lemma stop_case_inv:
  assumes "loop_inv s"
  shows "loop_inv (stop_case w s)"
proof -
  have "loop_inv (s\<lparr>waitForCallbacks := w\<rparr>)"
    by (rule inv_frame [OF assms]) simp_all
  then show ?thesis
    by (auto simp: stop_case_def Let_def finish_inv)
qed

lemma step_inv:
  assumes "loop_inv s" and "step vm s e = Inr s'"
  shows "loop_inv s'"
proof (cases e)
  case (Expire h)
  with assms show ?thesis by (simp add: expire_inv)
next
  case (TimerReady h bs err)
  with assms show ?thesis
    by (auto split: if_splits intro: timer_case_inv)
next
  case (EvalReq r bs)
  with assms show ?thesis
    by (auto split: if_splits intro: eval_case_inv)
next
  case (StopSignal w)
  with assms show ?thesis
    by (auto split: if_splits intro: stop_case_inv)
qed

lemma runEventLoop_inv:
  "loop_inv s \<Longrightarrow> runEventLoop vm s es = Inr s' \<Longrightarrow> loop_inv s'"
proof (induction es arbitrary: s)
  case Nil
  then show ?case by simp
next
  case (Cons e es)
  then show ?case
    by (auto split: sum.splits dest: step_inv)
qed

lemma reachable_inv: "runEventLoop vm New es = Inr s \<Longrightarrow> loop_inv s"
  by (rule runEventLoop_inv [OF New_inv])


subsection \<open>Delays\<close>

lemma sint_ms:
  fixes d :: "64 word"
  assumes "0 < sint d" and "sint d \<le> 9223372036854"
  shows "sint (d * Millisecond) = sint d * 1000000"
proof -
  have "sint (d * Millisecond) = signed_take_bit 63 (sint d * 1000000)"
    by (simp add: Millisecond_def sint_word_ariths)
  also have "\<dots> = sint d * 1000000"
    using assms by (intro signed_take_bit_int_eq_self) simp_all
  finally show ?thesis .
qed

lemma newTimer_heap:
  "newTimer vm c iv s = (h, v, s') \<Longrightarrow>
     h = allocated s \<and> v = TimerValue h \<and>
     heap s' h = Some \<lparr>timer = Some (clamp_delay (ToInteger vm (Argument c 1)) * Millisecond),
                          duration = clamp_delay (ToInteger vm (Argument c 1)) * Millisecond,
                          interval = iv, call = c\<rparr>"
  by (auto simp: newTimer_def Let_def)

text \<open>
  C6 (as amended). A registration through \<open>newTimer\<close> (\<open>setTimeout\<close> and
  \<open>setInterval\<close> both go through it) stores a duration and arms the timer with that
  same duration. When the delay argument converts to an integer that is zero or
  negative, the duration is exactly one millisecond. When it converts to a positive
  \<open>d\<close> of at most 9223372036854, the duration is \<open>d\<close> milliseconds, counted in
  nanoseconds.
\<close>

theorem newTimer_delay:
  assumes "newTimer vm c iv s = (h, v, s')" and "ToInteger vm (Argument c 1) = d"
  shows "\<exists>t. heap s' h = Some t \<and> timer t = Some (duration t) \<and>
           (sint d \<le> 0 \<longrightarrow> duration t = Millisecond) \<and>
           (0 < sint d \<and> sint d \<le> 9223372036854 \<longrightarrow> sint (duration t) = sint d * 1000000)"
proof -
  let ?t = "\<lparr>timer = Some (clamp_delay d * Millisecond),
             duration = clamp_delay d * Millisecond, interval = iv, call = c\<rparr>"
  have hp: "heap s' h = Some ?t"
    using newTimer_heap [OF assms(1)] assms(2) by blast
  have "sint d \<le> 0 \<longrightarrow> duration ?t = Millisecond"
    by (simp add: clamp_delay_def)
  moreover have "0 < sint d \<and> sint d \<le> 9223372036854 \<longrightarrow> sint (duration ?t) = sint d * 1000000"
    by (simp add: clamp_delay_def sint_ms)
  ultimately show ?thesis
    using hp by simp
qed

lemma example_delay: "ToInteger example_vm (Argument (schedule ms) 1) = word_of_int ms"
  by (simp add: example_vm_def schedule_def Argument_def)

lemma newTimer_New:
  "newTimer vm c iv New = (0, TimerValue 0, snd (snd (newTimer vm c iv New)))"
  by (simp add: newTimer_def New_def Let_def)

text \<open>The theorem at a delay of -5 and at a delay of 250.\<close>

theorem newTimer_delay_witness:
  "(\<exists>t. heap (snd (snd (newTimer example_vm (schedule (- 5)) True New))) 0 = Some t \<and>
        timer t = Some (duration t) \<and> duration t = Millisecond) \<and>
   (\<exists>t. heap (snd (snd (newTimer example_vm (schedule 250) False New))) 0 = Some t \<and>
        timer t = Some (duration t) \<and> sint (duration t) = 250000000)"
  using newTimer_delay [OF newTimer_New example_delay, of "- 5" True]
    newTimer_delay [OF newTimer_New example_delay, of 250 False]
  by simp

text \<open>
  C6 as first stated fails for large delays: the product with \<open>time.Millisecond\<close> is
  taken in 64 bits. A delay of 10000000000000000 ms is positive, and the duration stored
  for it is 1864712049423024128 ns.
\<close>

theorem newTimer_delay_counterexample:
  "sint (ToInteger example_vm (Argument (schedule 10000000000000000) 1)) = 10000000000000000 \<and>
   sint (duration (the (heap (snd (snd
     (newTimer example_vm (schedule 10000000000000000) False New))) 0))) = 1864712049423024128"
proof -
  have "sint (ToInteger example_vm (Argument (schedule 10000000000000000) 1)) = 10000000000000000"
    unfolding example_delay by simp
  moreover have "duration (the (heap (snd (snd
      (newTimer example_vm (schedule 10000000000000000) False New))) 0))
        = 10000000000000000 * 1000000"
    unfolding newTimer_def Let_def example_delay
    by (simp add: New_def clamp_delay_def Millisecond_def)
  moreover have "sint (10000000000000000 * 1000000 :: 64 word) = 1864712049423024128"
    by simp
  ultimately show ?thesis
    by (simp only:)
qed

subsection \<open>The timer case\<close>

text \<open>The definitions unfolded to run the examples.\<close>

lemmas loop_eval =
  New_def eval_case_def timer_case_def stop_case_def setTimeout_def setInterval_def
  newTimer_def clearTimeout_def Argument_def break_if_drained_def finish_def report_def
  Stop_timer_def Reset_timer_def Let_def clamp_delay_def Millisecond_def example_vm_def
  schedule_def clear_def state_after_def make_arguments_eq

lemma finish_observed: "observed (finish s) = observed s"
  by (simp add: finish_def)

lemma break_if_drained_observed: "observed (break_if_drained s) = observed s"
  by (simp add: break_if_drained_def finish_observed)

lemma break_if_drained_update:
  "break_if_drained (s\<lparr>observed := os\<rparr>) = (break_if_drained s)\<lparr>observed := os\<rparr>"
  by (simp add: break_if_drained_def finish_def)

lemma report_observed:
  "observed (report e arguments s) =
     observed s @ (case e of None \<Rightarrow> [] | Some msg \<Rightarrow> [Println msg arguments])"
  by (simp add: report_def split: option.splits)

lemma invocation_arguments:
  "invocation (if 2 < length al then Some (al ! 0) # None # map Some (drop 2 al)
               else [Some (al ! 0)]) = (Some (al ! 0), None, map Some (drop 2 al))"
  by simp

lemma timer_case_observed:
  assumes "heap s h = Some t" and "make_arguments (ArgumentList (call t)) = Inr arguments"
  shows "\<exists>s'. timer_case vm h bs e s = Inr s' \<and>
           observed s' = observed s @ Call h arguments #
             (case e of None \<Rightarrow> [] | Some msg \<Rightarrow> [Println msg arguments])"
  using assms
  by (simp add: timer_case_def Let_def break_if_drained_observed report_observed
      run_script_frame)

text \<open>
  C5 (as amended). When the loop receives a timer whose scheduling call had at least one
  argument, it calls the interpreter with this slice: the callback alone when the
  scheduling call had at most two arguments, and otherwise the callback, then \<open>nil\<close>
  in the place of the delay, then the arguments from position 2 on. Through
  \<open>Function.call.call\<close> the callback is thus invoked with a \<open>nil\<close> receiver and
  exactly the bound arguments. The call is the first thing the loop does for the timer.
\<close>

theorem timer_call_arguments:
  assumes "\<not> exited s" and "h \<in> set (ready s)" and "heap s h = Some t"
    and "ArgumentList (call t) = al" and "al \<noteq> []"
  shows "\<exists>s' arguments.
           step vm s (TimerReady h bs e) = Inr s' \<and>
           observed s' = observed s @ Call h arguments #
             (case e of None \<Rightarrow> [] | Some msg \<Rightarrow> [Println msg arguments]) \<and>
           arguments = (if 2 < length al then Some (al ! 0) # None # map Some (drop 2 al)
                        else [Some (al ! 0)]) \<and>
           invocation arguments = (Some (al ! 0), None, map Some (drop 2 al))"
proof -
  let ?arguments = "if 2 < length al then Some (al ! 0) # None # map Some (drop 2 al)
                    else [Some (al ! 0)]"
  have m: "make_arguments (ArgumentList (call t)) = Inr ?arguments"
    using make_arguments_eq [OF assms(5)] assms(4) by simp
  from timer_case_observed [OF assms(3) m, of vm bs e]
  obtain s' where "timer_case vm h bs e s = Inr s'"
    and "observed s' = observed s @ Call h ?arguments #
           (case e of None \<Rightarrow> [] | Some msg \<Rightarrow> [Println msg ?arguments])"
    by blast
  with assms(1,2) invocation_arguments [of al] show ?thesis
    by (intro exI [of _ s'] exI [of _ ?arguments]) simp
qed


text \<open>The theorem for \<open>setTimeout(cb, 0, "x")\<close>, once its timer has expired.\<close>

theorem timer_call_arguments_witness:
  "\<exists>s' arguments.
     step example_vm (state_after [EvalReq 0 [CallSetTimeout bound_call], Expire 0])
       (TimerReady 0 [] None) = Inr s' \<and>
     observed s' = [Ran 0, Closed 0, Call 0 arguments] \<and>
     arguments = [Some cb, None, Some (StringValue ''x'')] \<and>
     invocation arguments = (Some cb, None, [Some (StringValue ''x'')])"
  using timer_call_arguments [of "state_after [EvalReq 0 [CallSetTimeout bound_call], Expire 0]" 0
      "\<lparr>timer = None, duration = 1000000, interval = False, call = bound_call\<rparr>"
      "ArgumentList bound_call" example_vm "[]" None]
  by (simp add: loop_eval bound_call_def)

text \<open>
  C5 as first stated fails: for \<open>setTimeout(cb, 0, "x")\<close> the slice passed to the
  interpreter has three elements, with \<open>nil\<close> where the delay was; it is not the
  callback followed by the bound argument.
\<close>

theorem timer_call_arguments_counterexample:
  "observed (state_after [EvalReq 0 [CallSetTimeout bound_call], Expire 0, TimerReady 0 [] None]) =
     [Ran 0, Closed 0, Call 0 [Some cb, None, Some (StringValue ''x'')]]"
  by (simp add: loop_eval bound_call_def)

lemma timer_case_failure:
  assumes "heap s h = Some t" and "make_arguments (ArgumentList (call t)) = Inr arguments"
  shows "\<exists>s0. timer_case vm h bs None s = Inr s0 \<and>
           timer_case vm h bs (Some msg) s =
             Inr (s0\<lparr>observed := observed s0 @ [Println msg arguments]\<rparr>)"
proof (cases "interval t")
  case True
  with assms show ?thesis
    by (simp add: timer_case_def Let_def report_def)
next
  case False
  let ?s2 = "run_script vm bs
      (s\<lparr>ready := remove1 h (ready s), observed := observed s @ [Call h arguments]\<rparr>)"
  let ?s0 = "break_if_drained (?s2\<lparr>registry := registry ?s2 - {h}\<rparr>)"
  have 0: "timer_case vm h bs None s = Inr ?s0"
    using assms False by (simp add: timer_case_def Let_def report_def)
  have swap: "(?s2\<lparr>observed := observed ?s2 @ [Println msg arguments]\<rparr>)\<lparr>registry := registry ?s2 - {h}\<rparr> =
          (?s2\<lparr>registry := registry ?s2 - {h}\<rparr>)\<lparr>observed := observed ?s2 @ [Println msg arguments]\<rparr>"
    by simp
  have "timer_case vm h bs (Some msg) s =
          Inr (break_if_drained
            ((?s2\<lparr>observed := observed ?s2 @ [Println msg arguments]\<rparr>)\<lparr>registry := registry ?s2 - {h}\<rparr>))"
    using assms False by (simp add: timer_case_def Let_def report_def)
  then have "timer_case vm h bs (Some msg) s =
          Inr (?s0\<lparr>observed := observed ?s0 @ [Println msg arguments]\<rparr>)"
    unfolding swap by (simp add: break_if_drained_update break_if_drained_observed)
  with 0 show ?thesis
    by blast
qed

lemma timer_case_periodic:
  assumes "heap s h = Some t" and "h < allocated s" and "interval t"
    and "timer_case vm h bs e s = Inr s'"
  shows "exited s' = exited s \<and>
         (\<exists>t'. heap s' h = Some t' \<and> timer t' = Some (duration t) \<and>
               duration t' = duration t \<and> interval t' \<and> call t' = call t) \<and>
         (h \<in> registry s' \<longleftrightarrow> h \<in> registry s \<and> \<not> cancels h bs)"
proof -
  from assms(1,4) obtain arguments where a: "make_arguments (ArgumentList (call t)) = Inr arguments"
    by (auto simp: timer_case_def split: sum.splits)
  let ?s1 = "s\<lparr>ready := remove1 h (ready s), observed := observed s @ [Call h arguments]\<rparr>"
  let ?s2 = "run_script vm bs ?s1"
  let ?s3 = "report e arguments ?s2"
  have s': "s' = ?s3\<lparr>heap := Reset_timer h (heap ?s3)\<rparr>"
    using assms(1,3,4) a by (simp add: timer_case_def Let_def)
  have pre: "heap ?s1 h = Some t" "h < allocated ?s1"
    using assms(1,2) by simp_all
  from run_script_fields [OF pre, of vm bs]
  obtain t2 where t2: "heap ?s2 h = Some t2" "duration t2 = duration t"
      "interval t2 = interval t" "call t2 = call t"
    by blast
  have frame3: "heap ?s3 = heap ?s2" "registry ?s3 = registry ?s2" "exited ?s3 = exited ?s2"
    by (simp_all add: report_def split: option.splits)
  have "exited s' = exited s"
    by (simp add: s' frame3 run_script_frame)
  moreover have "heap s' h = Some (t2\<lparr>timer := Some (duration t2)\<rparr>)"
    by (simp add: s' frame3 Reset_timer_def t2(1))
  moreover have "h \<in> registry s' \<longleftrightarrow> h \<in> registry s \<and> \<not> cancels h bs"
    using run_script_registry [OF pre(2), of vm bs] by (simp add: s' frame3)
  ultimately show ?thesis
    using t2 assms(3) by simp
qed

text \<open>
  C7. In a state the loop can reach, take a timer waiting to be received. When its
  callback comes back with an error, the loop does what it does when the callback comes
  back without one, and prints the error: the two resulting states differ only by the
  printed line, so the error neither ends the loop nor touches the registry or any
  timer. For a periodic timer the loop is still running afterwards, the timer is armed
  again with its duration, and it is registered exactly when it was registered before
  and the callback itself did not clear it.
\<close>

theorem callback_failure_reported:
  assumes "runEventLoop vm New es = Inr s" and "\<not> exited s" and "h \<in> set (ready s)"
    and "heap s h = Some t" and "make_arguments (ArgumentList (call t)) = Inr arguments"
  shows "\<exists>s0 s'.
           step vm s (TimerReady h bs None) = Inr s0 \<and>
           step vm s (TimerReady h bs (Some msg)) = Inr s' \<and>
           s' = s0\<lparr>observed := observed s0 @ [Println msg arguments]\<rparr> \<and>
           exited s' = exited s0 \<and>
           (interval t \<longrightarrow>
              \<not> exited s' \<and>
              (\<exists>t'. heap s' h = Some t' \<and> timer t' = Some (duration t) \<and> interval t') \<and>
              (h \<in> registry s' \<longleftrightarrow> h \<in> registry s \<and> \<not> cancels h bs))"
proof -
  from timer_case_failure [OF assms(4,5), of vm bs msg]
  obtain s0 where s0: "timer_case vm h bs None s = Inr s0"
    and s': "timer_case vm h bs (Some msg) s =
               Inr (s0\<lparr>observed := observed s0 @ [Println msg arguments]\<rparr>)"
    by blast
  let ?s' = "s0\<lparr>observed := observed s0 @ [Println msg arguments]\<rparr>"
  have lt: "h < allocated s"
    by (rule inv_allocated [OF reachable_inv [OF assms(1)] assms(4)])
  have "interval t \<longrightarrow>
          \<not> exited ?s' \<and>
          (\<exists>t'. heap ?s' h = Some t' \<and> timer t' = Some (duration t) \<and> interval t') \<and>
          (h \<in> registry ?s' \<longleftrightarrow> h \<in> registry s \<and> \<not> cancels h bs)"
  proof
    assume "interval t"
    from timer_case_periodic [OF assms(4) lt this s'] assms(2)
    show "\<not> exited ?s' \<and>
          (\<exists>t'. heap ?s' h = Some t' \<and> timer t' = Some (duration t) \<and> interval t') \<and>
          (h \<in> registry ?s' \<longleftrightarrow> h \<in> registry s \<and> \<not> cancels h bs)"
      by auto
  qed
  with s0 s' assms(2,3) show ?thesis
    by (intro exI [of _ s0] exI [of _ ?s']) simp
qed


text \<open>The theorem for \<open>setInterval(cb, 10)\<close> whose callback fails at its first fire.\<close>

theorem callback_failure_reported_witness:
  "\<exists>s0 s'.
     step example_vm (state_after [EvalReq 0 [CallSetInterval (schedule 10)], Expire 0])
       (TimerReady 0 [] None) = Inr s0 \<and>
     step example_vm (state_after [EvalReq 0 [CallSetInterval (schedule 10)], Expire 0])
       (TimerReady 0 [] (Some ''TypeError'')) = Inr s' \<and>
     s' = s0\<lparr>observed := observed s0 @ [Println ''TypeError'' [Some cb]]\<rparr> \<and>
     \<not> exited s' \<and>
     (\<exists>t'. heap s' 0 = Some t' \<and> timer t' = Some 10000000 \<and> interval t') \<and>
     0 \<in> registry s'"
  using callback_failure_reported [of example_vm
      "[EvalReq 0 [CallSetInterval (schedule 10)], Expire 0]"
      "state_after [EvalReq 0 [CallSetInterval (schedule 10)], Expire 0]" 0
      "\<lparr>timer = None, duration = 10000000, interval = True, call = schedule 10\<rparr>"
      "[Some cb]" "[]" "''TypeError''"]
  by (simp add: loop_eval)

subsection \<open>What later events leave alone\<close>

lemma finish_frame:
  "allocated (finish s) = allocated s \<and> registry (finish s) = {} \<and> exited (finish s) \<and>
   (heap s h = Some t \<longrightarrow>
      (\<exists>t'. heap (finish s) h = Some t' \<and> duration t' = duration t \<and>
            interval t' = interval t \<and> call t' = call t))"
  by (simp add: finish_def)

lemma break_if_drained_frame:
  "allocated (break_if_drained s) = allocated s \<and>
   (heap s h = Some t \<longrightarrow>
      (\<exists>t'. heap (break_if_drained s) h = Some t' \<and> duration t' = duration t \<and>
            interval t' = interval t \<and> call t' = call t)) \<and>
   (h \<in> registry (break_if_drained s) \<longrightarrow> h \<in> registry s) \<and>
   (h \<in> registry s \<longrightarrow> h \<in> registry (break_if_drained s) \<or> exited (break_if_drained s))"
  using finish_frame [of s h t] by (simp add: break_if_drained_def)

lemma timer_case_old:
  assumes "heap s h = Some t" and "h < allocated s" and "timer_case vm k bs e s = Inr s'"
  shows "h < allocated s' \<and>
         (\<exists>t'. heap s' h = Some t' \<and> duration t' = duration t \<and>
               interval t' = interval t \<and> call t' = call t) \<and>
         calls_of h (observed s) \<le> calls_of h (observed s') \<and>
         (h \<in> registry s' \<longrightarrow> h \<in> registry s) \<and>
         (h \<in> registry s \<and> interval t \<and> \<not> cancels h bs \<longrightarrow> h \<in> registry s' \<or> exited s')"
proof -
  from assms(3) obtain u arguments where u: "heap s k = Some u"
    and a: "make_arguments (ArgumentList (call u)) = Inr arguments"
    by (auto simp: timer_case_def split: option.splits sum.splits)
  let ?s1 = "s\<lparr>ready := remove1 k (ready s), observed := observed s @ [Call k arguments]\<rparr>"
  let ?s2 = "run_script vm bs ?s1"
  let ?s3 = "report e arguments ?s2"
  have pre: "heap ?s1 h = Some t" "h < allocated ?s1"
    using assms(1,2) by simp_all
  from run_script_fields [OF pre, of vm bs]
  obtain t2 where t2: "heap ?s2 h = Some t2" "h < allocated ?s2" "duration t2 = duration t"
      "interval t2 = interval t" "call t2 = call t"
    by blast
  have reg2: "h \<in> registry ?s2 \<longleftrightarrow> h \<in> registry s \<and> \<not> cancels h bs"
    using run_script_registry [OF pre(2), of vm bs] by simp
  have frame3: "heap ?s3 = heap ?s2" "registry ?s3 = registry ?s2" "allocated ?s3 = allocated ?s2"
    by (simp_all add: report_def split: option.splits)
  have obs3: "calls_of h (observed s) \<le> calls_of h (observed ?s3)"
    by (simp add: report_observed run_script_frame calls_of_append)
  show ?thesis
  proof (cases "interval u")
    case True
    with assms(3) u a have s': "s' = ?s3\<lparr>heap := Reset_timer k (heap ?s3)\<rparr>"
      by (simp add: timer_case_def Let_def)
    have "\<exists>t'. heap s' h = Some t' \<and> duration t' = duration t \<and>
               interval t' = interval t \<and> call t' = call t"
      using t2 by (auto simp: s' frame3 Reset_timer_def split: option.splits)
    then show ?thesis
      using t2(2) reg2 obs3 by (simp add: s' frame3)
  next
    case False
    let ?s4 = "?s3\<lparr>registry := registry ?s3 - {k}\<rparr>"
    from False assms(3) u a have s': "s' = break_if_drained ?s4"
      by (simp add: timer_case_def Let_def)
    have h4: "heap ?s4 h = Some t2"
      using t2(1) by (simp add: frame3)
    have ne: "interval t \<Longrightarrow> h \<noteq> k"
      using False u assms(1) by auto
    from break_if_drained_frame [of ?s4 h t2] h4 t2 reg2 obs3 ne show ?thesis
      unfolding s' by (auto simp: frame3 break_if_drained_observed)
  qed
qed

lemma eval_case_old:
  assumes "heap s h = Some t" and "h < allocated s"
  shows "h < allocated (eval_case vm r bs s) \<and>
         (\<exists>t'. heap (eval_case vm r bs s) h = Some t' \<and> duration t' = duration t \<and>
               interval t' = interval t \<and> call t' = call t) \<and>
         calls_of h (observed s) \<le> calls_of h (observed (eval_case vm r bs s)) \<and>
         (h \<in> registry (eval_case vm r bs s) \<longrightarrow> h \<in> registry s) \<and>
         (h \<in> registry s \<and> \<not> cancels h bs \<longrightarrow>
            h \<in> registry (eval_case vm r bs s) \<or> exited (eval_case vm r bs s))"
proof -
  let ?s1 = "run_script vm bs s"
  let ?s3 = "?s1\<lparr>observed := observed ?s1 @ [Ran r, Closed r]\<rparr>"
  from run_script_fields [OF assms, of vm bs]
  obtain t2 where t2: "heap ?s1 h = Some t2" "h < allocated ?s1" "duration t2 = duration t"
      "interval t2 = interval t" "call t2 = call t"
    by blast
  have reg: "h \<in> registry ?s1 \<longleftrightarrow> h \<in> registry s \<and> \<not> cancels h bs"
    by (rule run_script_registry [OF assms(2)])
  have e: "eval_case vm r bs s = break_if_drained ?s3"
    by (simp add: eval_case_def Let_def)
  have h3: "heap ?s3 h = Some t2"
    using t2(1) by simp
  from break_if_drained_frame [of ?s3 h t2] h3 t2 reg show ?thesis
    unfolding e by (auto simp: break_if_drained_observed run_script_frame calls_of_append)
qed

lemma stop_case_old:
  assumes "heap s h = Some t"
  shows "allocated (stop_case w s) = allocated s \<and>
         (\<exists>t'. heap (stop_case w s) h = Some t' \<and> duration t' = duration t \<and>
               interval t' = interval t \<and> call t' = call t) \<and>
         observed (stop_case w s) = observed s \<and>
         (h \<in> registry (stop_case w s) \<longrightarrow> h \<in> registry s) \<and>
         (h \<in> registry s \<longrightarrow> h \<in> registry (stop_case w s) \<or> exited (stop_case w s))"
  using assms finish_frame [of "s\<lparr>waitForCallbacks := w\<rparr>" h t]
  by (simp add: stop_case_def Let_def finish_observed)

lemma step_old:
  assumes "heap s h = Some t" and "h < allocated s" and "step vm s e = Inr s'"
  shows "h < allocated s' \<and>
         (\<exists>t'. heap s' h = Some t' \<and> duration t' = duration t \<and>
               interval t' = interval t \<and> call t' = call t) \<and>
         calls_of h (observed s) \<le> calls_of h (observed s') \<and>
         (h \<in> registry s' \<longrightarrow> h \<in> registry s) \<and>
         (h \<in> registry s \<and> interval t \<and> \<not> cancels h (script_of e) \<longrightarrow>
            h \<in> registry s' \<or> exited s')"
proof (cases e)
  case (Expire k)
  with assms show ?thesis
    by (auto split: option.splits if_splits)
next
  case (TimerReady k bs err)
  with assms(3) have "timer_case vm k bs err s = Inr s'"
    by (simp split: if_splits)
  from timer_case_old [OF assms(1,2) this] TimerReady show ?thesis
    by simp
next
  case (EvalReq r bs)
  with assms(3) have "s' = eval_case vm r bs s"
    by (simp split: if_splits)
  with eval_case_old [OF assms(1,2), of vm r bs] EvalReq show ?thesis
    by simp
next
  case (StopSignal w)
  with assms(3) have "s' = stop_case w s"
    by (simp split: if_splits)
  with stop_case_old [OF assms(1), of w] assms(2) StopSignal show ?thesis
    by simp
qed

lemma runEventLoop_old:
  assumes "heap s h = Some t" and "h < allocated s" and "runEventLoop vm s es = Inr s'"
  shows "h < allocated s' \<and>
         (\<exists>t'. heap s' h = Some t' \<and> duration t' = duration t \<and>
               interval t' = interval t \<and> call t' = call t) \<and>
         calls_of h (observed s) \<le> calls_of h (observed s') \<and>
         (h \<in> registry s' \<longrightarrow> h \<in> registry s)"
  using assms
proof (induction es arbitrary: s t)
  case Nil
  then show ?case by simp
next
  case (Cons e es)
  from Cons.prems(3) obtain s1 where 1: "step vm s e = Inr s1" and 2: "runEventLoop vm s1 es = Inr s'"
    by (auto split: sum.splits)
  from step_old [OF Cons.prems(1,2) 1]
  obtain t1 where t1: "heap s1 h = Some t1" "h < allocated s1" "duration t1 = duration t"
      "interval t1 = interval t" "call t1 = call t"
      "calls_of h (observed s) \<le> calls_of h (observed s1)"
      "h \<in> registry s1 \<longrightarrow> h \<in> registry s"
    by blast
  from Cons.IH [OF t1(1,2) 2] t1(3-7) show ?case
    by auto
qed


lemma step_exited: "exited s \<Longrightarrow> step vm s e = Inr s' \<Longrightarrow> exited s'"
  by (cases e) (auto split: option.splits if_splits)

lemma runEventLoop_exited: "exited s \<Longrightarrow> runEventLoop vm s es = Inr s' \<Longrightarrow> exited s'"
proof (induction es arbitrary: s)
  case Nil
  then show ?case by simp
next
  case (Cons e es)
  then show ?case
    by (auto split: sum.splits dest: step_exited)
qed

lemma runEventLoop_keeps_periodic:
  assumes "heap s h = Some t" and "h < allocated s" and "interval t" and "h \<in> registry s"
    and "runEventLoop vm s es = Inr s'" and "\<forall>ev\<in>set es. \<not> cancels h (script_of ev)"
    and "\<not> exited s'"
  shows "h \<in> registry s'"
  using assms
proof (induction es arbitrary: s t)
  case Nil
  then show ?case by simp
next
  case (Cons e es)
  from Cons.prems(5) obtain s1 where 1: "step vm s e = Inr s1" and 2: "runEventLoop vm s1 es = Inr s'"
    by (auto split: sum.splits)
  from step_old [OF Cons.prems(1,2) 1] Cons.prems(3,4,6)
  obtain t1 where t1: "heap s1 h = Some t1" "h < allocated s1" "interval t1"
      "h \<in> registry s1 \<or> exited s1"
    by auto
  from runEventLoop_exited [OF _ 2] Cons.prems(7) have "\<not> exited s1"
    by blast
  with t1(4) have "h \<in> registry s1"
    by simp
  from Cons.IH [OF t1(1,2,3) this 2 _ Cons.prems(7)] Cons.prems(6) show ?case
    by simp
qed

lemma timer_case_oneshot:
  assumes "heap s h = Some t" and "\<not> interval t" and "timer_case vm h bs e s = Inr s'"
  shows "h \<notin> registry s' \<and> calls_of h (observed s') = calls_of h (observed s) + 1"
proof -
  from assms(1,3) obtain arguments where a: "make_arguments (ArgumentList (call t)) = Inr arguments"
    by (auto simp: timer_case_def split: sum.splits)
  let ?s1 = "s\<lparr>ready := remove1 h (ready s), observed := observed s @ [Call h arguments]\<rparr>"
  let ?s3 = "report e arguments (run_script vm bs ?s1)"
  let ?s4 = "?s3\<lparr>registry := registry ?s3 - {h}\<rparr>"
  have s': "s' = break_if_drained ?s4"
    using assms a by (simp add: timer_case_def Let_def)
  have "h \<notin> registry s'"
    using break_if_drained_frame [of ?s4 h t] unfolding s' by simp
  moreover have "calls_of h (observed s') = calls_of h (observed s) + 1"
    unfolding s'
    by (simp add: break_if_drained_observed report_observed run_script_frame calls_of_append
        split: option.splits)
  ultimately show ?thesis
    by simp
qed

lemma oneshot_calls:
  assumes "loop_inv s" and "heap s h = Some t" and "\<not> interval t"
  shows "count_list (ready s) h + calls_of h (observed s) \<le> 1"
  using assms by (auto simp: loop_inv_def timer_ok_def dest!: spec [of _ h])

text \<open>
  C4. In a state the loop can reach, let the loop handle the fire of timer \<open>h\<close>, and
  let any events \<open>es'\<close> follow. A periodic timer is the same object afterwards, with
  the same duration, flag and call, armed again with its duration; it is registered
  exactly when it was registered before and its callback did not clear it; and it stays
  registered through \<open>es'\<close> as long as no script clears it and the loop has not exited.
  A one-shot timer is not registered after the fire, its callback has been called
  exactly once, and both remain so after \<open>es'\<close>.
\<close>

theorem timer_after_fire:
  assumes "runEventLoop vm New es = Inr s" and "heap s h = Some t"
    and "step vm s (TimerReady h bs e) = Inr s'" and "runEventLoop vm s' es' = Inr s''"
  shows "if interval t
         then (\<exists>t'. heap s' h = Some t' \<and> timer t' = Some (duration t) \<and>
                    duration t' = duration t \<and> interval t' \<and> call t' = call t) \<and>
              (h \<in> registry s' \<longleftrightarrow> h \<in> registry s \<and> \<not> cancels h bs) \<and>
              (h \<in> registry s' \<and> (\<forall>ev\<in>set es'. \<not> cancels h (script_of ev)) \<and> \<not> exited s''
                 \<longrightarrow> h \<in> registry s'')
         else h \<notin> registry s' \<and> calls_of h (observed s') = 1 \<and>
              h \<notin> registry s'' \<and> calls_of h (observed s'') = 1"
proof -
  have loop_inv: "loop_inv s"
    by (rule reachable_inv [OF assms(1)])
  have lt: "h < allocated s"
    by (rule inv_allocated [OF loop_inv assms(2)])
  from assms(3) have rdy: "h \<in> set (ready s)" and tc: "timer_case vm h bs e s = Inr s'"
    by (simp_all split: if_splits)
  from step_old [OF assms(2) lt assms(3)]
  obtain t1 where t1: "heap s' h = Some t1" "h < allocated s'" "interval t1 = interval t"
    by blast
  show ?thesis
  proof (cases "interval t")
    case True
    from timer_case_periodic [OF assms(2) lt True tc]
    have 1: "\<exists>t'. heap s' h = Some t' \<and> timer t' = Some (duration t) \<and>
                  duration t' = duration t \<and> interval t' \<and> call t' = call t"
      and 2: "h \<in> registry s' \<longleftrightarrow> h \<in> registry s \<and> \<not> cancels h bs"
      by blast+
    have 3: "h \<in> registry s' \<and> (\<forall>ev\<in>set es'. \<not> cancels h (script_of ev)) \<and> \<not> exited s''
               \<longrightarrow> h \<in> registry s''"
      using runEventLoop_keeps_periodic [OF t1(1,2) _ _ assms(4)] t1(3) True by blast
    from True 1 2 3 show ?thesis
      by simp
  next
    case False
    from rdy have "count_list (ready s) h \<noteq> 0"
      by (simp add: count_list_0_iff)
    with oneshot_calls [OF loop_inv assms(2) False] have "calls_of h (observed s) = 0"
      by simp
    with timer_case_oneshot [OF assms(2) False tc]
    have a: "h \<notin> registry s'" "calls_of h (observed s') = 1"
      by simp_all
    have inv'': "loop_inv s''"
      by (rule runEventLoop_inv [OF step_inv [OF loop_inv assms(3)] assms(4)])
    from runEventLoop_old [OF t1(1,2) assms(4)]
    obtain t2 where t2: "heap s'' h = Some t2" "interval t2 = interval t1"
        "calls_of h (observed s') \<le> calls_of h (observed s'')"
        "h \<in> registry s'' \<longrightarrow> h \<in> registry s'"
      by blast
    from oneshot_calls [OF inv'' t2(1)] t2(2) t1(3) False
    have "calls_of h (observed s'') \<le> 1"
      by simp
    with a t2(3,4) False show ?thesis
      by simp
  qed
qed


text \<open>
  The theorem for \<open>setInterval(cb, 10)\<close>, fired once and then expiring again, and for
  \<open>setTimeout(cb, 10)\<close>, fired once and followed by another request.
\<close>

theorem timer_after_fire_witness:
  "((\<exists>t'. heap (state_after [EvalReq 0 [CallSetInterval (schedule 10)], Expire 0,
                               TimerReady 0 [] None]) 0 = Some t' \<and>
          timer t' = Some 10000000 \<and> duration t' = 10000000 \<and> interval t' \<and>
          call t' = schedule 10) \<and>
    0 \<in> registry (state_after [EvalReq 0 [CallSetInterval (schedule 10)], Expire 0,
                               TimerReady 0 [] None]) \<and>
    0 \<in> registry (state_after [EvalReq 0 [CallSetInterval (schedule 10)], Expire 0,
                               TimerReady 0 [] None, Expire 0])) \<and>
   (0 \<notin> registry (state_after [EvalReq 0 [CallSetTimeout (schedule 10)], Expire 0,
                                TimerReady 0 [] None]) \<and>
    calls_of 0 (observed (state_after [EvalReq 0 [CallSetTimeout (schedule 10)], Expire 0,
                                       TimerReady 0 [] None])) = 1 \<and>
    0 \<notin> registry (state_after [EvalReq 0 [CallSetTimeout (schedule 10)], Expire 0,
                                TimerReady 0 [] None, EvalReq 1 [CallSetTimeout (schedule 5)]]) \<and>
    calls_of 0 (observed (state_after [EvalReq 0 [CallSetTimeout (schedule 10)], Expire 0,
                                       TimerReady 0 [] None,
                                       EvalReq 1 [CallSetTimeout (schedule 5)]])) = 1)"
  using timer_after_fire [of example_vm
      "[EvalReq 0 [CallSetInterval (schedule 10)], Expire 0]"
      "state_after [EvalReq 0 [CallSetInterval (schedule 10)], Expire 0]" 0
      "\<lparr>timer = None, duration = 10000000, interval = True, call = schedule 10\<rparr>"
      "[]" None
      "state_after [EvalReq 0 [CallSetInterval (schedule 10)], Expire 0, TimerReady 0 [] None]"
      "[Expire 0]"
      "state_after [EvalReq 0 [CallSetInterval (schedule 10)], Expire 0, TimerReady 0 [] None,
                    Expire 0]"]
    timer_after_fire [of example_vm
      "[EvalReq 0 [CallSetTimeout (schedule 10)], Expire 0]"
      "state_after [EvalReq 0 [CallSetTimeout (schedule 10)], Expire 0]" 0
      "\<lparr>timer = None, duration = 10000000, interval = False, call = schedule 10\<rparr>"
      "[]" None
      "state_after [EvalReq 0 [CallSetTimeout (schedule 10)], Expire 0, TimerReady 0 [] None]"
      "[EvalReq 1 [CallSetTimeout (schedule 5)]]"
      "state_after [EvalReq 0 [CallSetTimeout (schedule 10)], Expire 0, TimerReady 0 [] None,
                    EvalReq 1 [CallSetTimeout (schedule 5)]]"]
  by (simp add: loop_eval)

subsection \<open>Requests\<close>

lemma count_Closed_calls [simp]:
  "count_list (os @ [Call h arguments]) (Closed r) = count_list os (Closed r)"
  "count_list (os @ [Println msg arguments]) (Closed r) = count_list os (Closed r)"
  by simp_all

lemma timer_case_Closed:
  assumes "timer_case vm h bs e s = Inr s'"
  shows "count_list (observed s') (Closed r) = count_list (observed s) (Closed r)"
proof -
  from assms obtain t arguments where t: "heap s h = Some t"
    and a: "make_arguments (ArgumentList (call t)) = Inr arguments"
    by (auto simp: timer_case_def split: option.splits sum.splits)
  from timer_case_observed [OF t a, of vm bs e] assms show ?thesis
    by (auto split: option.splits)
qed

lemma eval_case_observed: "observed (eval_case vm r bs s) = observed s @ [Ran r, Closed r]"
  by (simp add: eval_case_def Let_def break_if_drained_observed run_script_frame)

lemma stop_case_observed: "observed (stop_case w s) = observed s"
  by (simp add: stop_case_def Let_def finish_observed)

lemma step_Closed:
  assumes "step vm s e = Inr s'"
  shows "count_list (observed s') (Closed r) = count_list (observed s) (Closed r) + requests_of r [e]"
proof (cases e)
  case (Expire h)
  with assms show ?thesis
    by (auto split: option.splits if_splits)
next
  case (TimerReady h bs err)
  with assms show ?thesis
    by (auto split: if_splits dest: timer_case_Closed)
next
  case (EvalReq q bs)
  with assms show ?thesis
    by (auto split: if_splits simp: eval_case_observed)
next
  case (StopSignal w)
  with assms show ?thesis
    by (auto split: if_splits simp: stop_case_observed)
qed

lemma requests_of_Cons: "requests_of r (e # es) = requests_of r [e] + requests_of r es"
  by (cases e) simp_all

lemma runEventLoop_Closed:
  "runEventLoop vm s es = Inr s' \<Longrightarrow>
     count_list (observed s') (Closed r) = count_list (observed s) (Closed r) + requests_of r es"
proof (induction es arbitrary: s)
  case Nil
  then show ?case by simp
next
  case (Cons e es)
  from Cons.prems obtain s1 where 1: "step vm s e = Inr s1" and 2: "runEventLoop vm s1 es = Inr s'"
    by (auto split: sum.splits)
  from step_Closed [OF 1, of r] Cons.IH [OF 2] show ?case
    by (simp add: requests_of_Cons [of r e es])
qed

lemma step_observed_grows:
  assumes "step vm s e = Inr s'" and "requests_of r [e] = 0"
  shows "\<exists>zs. observed s' = observed s @ zs \<and> Closed r \<notin> set zs"
proof (cases e)
  case (Expire h)
  with assms have "observed s' = observed s @ []"
    by (auto split: option.splits if_splits)
  then show ?thesis by force
next
  case (TimerReady h bs err)
  with assms(1) have tc: "timer_case vm h bs err s = Inr s'"
    by (simp split: if_splits)
  then obtain t arguments where t: "heap s h = Some t"
    and a: "make_arguments (ArgumentList (call t)) = Inr arguments"
    by (auto simp: timer_case_def split: option.splits sum.splits)
  from timer_case_observed [OF t a, of vm bs err] tc
  have "observed s' = observed s @ Call h arguments #
          (case err of None \<Rightarrow> [] | Some msg \<Rightarrow> [Println msg arguments])"
    by simp
  then show ?thesis
    by (intro exI [of _ "Call h arguments #
          (case err of None \<Rightarrow> [] | Some msg \<Rightarrow> [Println msg arguments])"])
      (simp split: option.splits)
next
  case (EvalReq q bs)
  with assms have "observed s' = observed s @ [Ran q, Closed q]" and "q \<noteq> r"
    by (auto split: if_splits simp: eval_case_observed)
  then show ?thesis
    by (intro exI [of _ "[Ran q, Closed q]"]) simp
next
  case (StopSignal w)
  with assms have "observed s' = observed s @ []"
    by (auto split: if_splits simp: stop_case_observed)
  then show ?thesis by force
qed

lemma closed_once_append:
  "closed_once r os \<Longrightarrow> Closed r \<notin> set zs \<Longrightarrow> closed_once r (os @ zs)"
  unfolding closed_once_def
proof (elim exE conjE)
  fix xs ys
  assume "os = xs @ Ran r # Closed r # ys" "Closed r \<notin> set xs" "Closed r \<notin> set ys"
    "Closed r \<notin> set zs"
  then show "\<exists>xs ys. os @ zs = xs @ Ran r # Closed r # ys \<and> Closed r \<notin> set xs \<and> Closed r \<notin> set ys"
    by (intro exI [of _ xs] exI [of _ "ys @ zs"]) simp
qed

lemma closed_once_count: "closed_once r os \<Longrightarrow> count_list os (Closed r) = 1"
  by (auto simp: closed_once_def)

lemma closed_once_mem: "closed_once r os \<Longrightarrow> Closed r \<in> set os"
  by (auto simp: closed_once_def)

lemma closed_once_last:
  "Closed r \<notin> set xs \<Longrightarrow> closed_once r (xs @ [Ran r, Closed r])"
  unfolding closed_once_def by (intro exI [of _ xs] exI [of _ "[]"]) simp


lemma do_step_inv:
  assumes "do_inv r fn c" and "do_step vm r fn c ev = Inr c'"
    and "requests_of r (other_events [ev]) = 0"
  shows "do_inv r fn c'"
proof -
  obtain pc ph s where c: "c = (pc, ph, s)"
    by (cases c) auto
  show ?thesis
  proof (cases ev)
    case Handoff
    with assms c show ?thesis
      by (auto split: if_splits)
  next
    case FnReturn
    with assms c show ?thesis
      by (auto simp: Let_def run_script_frame split: option.splits if_splits)
  next
    case CloseDone
    with assms c show ?thesis
      by (auto split: if_splits)
  next
    case DrainCheck
    with assms c show ?thesis
      by (auto simp: break_if_drained_observed closed_once_last split: if_splits)
  next
    case ReturnDo
    with assms c show ?thesis
      by (cases ph) (auto split: if_splits)
  next
    case (Loop e)
    with assms(2) c obtain s' where st: "step vm s e = Inr s'" and c': "c' = (pc, ph, s')"
      and en: "ph = Selecting \<or> (case e of Expire h \<Rightarrow> True | _ \<Rightarrow> False)"
      by (auto split: if_splits sum.splits)
    from assms(3) Loop have "requests_of r [e] = 0"
      by simp
    from step_observed_grows [OF st this]
    obtain zs where zs: "observed s' = observed s @ zs" "Closed r \<notin> set zs"
      by blast
    show ?thesis
    proof (cases ph)
      case Selecting
      with assms(1) c zs show ?thesis
        by (auto simp: c' closed_once_append)
    next
      case Running
      with en obtain h where "e = Expire h"
        by (cases e) auto
      with st have "observed s' = observed s"
        by (auto split: option.splits if_splits)
      with assms(1) c Running show ?thesis
        by (simp add: c')
    next
      case FnReturned
      with en obtain h where "e = Expire h"
        by (cases e) auto
      with st have "observed s' = observed s"
        by (auto split: option.splits if_splits)
      with assms(1) c FnReturned show ?thesis
        by (simp add: c')
    next
      case DoneClosed
      with en obtain h where "e = Expire h"
        by (cases e) auto
      with st have "observed s' = observed s"
        by (auto split: option.splits if_splits)
      with assms(1) c DoneClosed show ?thesis
        by (simp add: c')
    qed
  qed
qed

lemma other_events_Cons:
  "requests_of r (other_events (ev # evs)) =
     requests_of r (other_events [ev]) + requests_of r (other_events evs)"
  by (cases ev) (simp_all add: requests_of_Cons [of r _ "other_events evs"])

lemma do_run_inv:
  "do_inv r fn c \<Longrightarrow> do_run vm r fn c evs = Inr c' \<Longrightarrow>
     requests_of r (other_events evs) = 0 \<Longrightarrow> do_inv r fn c'"
proof (induction evs arbitrary: c)
  case Nil
  then show ?case by simp
next
  case (Cons ev evs)
  from Cons.prems(2) obtain c1 where 1: "do_step vm r fn c ev = Inr c1"
    and 2: "do_run vm r fn c1 evs = Inr c'"
    by (auto split: sum.splits)
  from Cons.prems(3) have 3: "requests_of r (other_events [ev]) = 0"
    and 4: "requests_of r (other_events evs) = 0"
    by (simp_all add: other_events_Cons [of r ev evs])
  from Cons.IH [OF do_step_inv [OF Cons.prems(1) 1 3] 2 4] show ?case .
qed

lemma do_inv_read:
  assumes "do_inv r fn (pc, ph, s)"
  shows "count_list (observed s) (Closed r) =
           (if ph = DoneClosed \<or> (ph = Selecting \<and> pc \<noteq> AtSend) then 1 else 0) \<and>
         (Closed r \<in> set (observed s) \<longrightarrow>
            (\<exists>bs. fn = Some bs) \<and> (\<exists>xs ys. observed s = xs @ Ran r # Closed r # ys)) \<and>
         (pc = Returned \<longrightarrow> Closed r \<in> set (observed s)) \<and>
         (ph = Running \<or> ph = FnReturned \<longrightarrow> pc = AtReceive)"
proof (cases ph)
  case Selecting
  show ?thesis
  proof (cases "pc = AtSend")
    case True
    with assms Selecting show ?thesis by simp
  next
    case False
    with assms Selecting have "fn \<noteq> None" and co: "closed_once r (observed s)"
      by simp_all
    from co obtain xs ys where "observed s = xs @ Ran r # Closed r # ys"
      by (auto simp: closed_once_def)
    with \<open>fn \<noteq> None\<close> closed_once_count [OF co] closed_once_mem [OF co] False Selecting
    show ?thesis by auto
  qed
next
  case Running
  with assms show ?thesis by simp
next
  case FnReturned
  with assms show ?thesis by auto
next
  case DoneClosed
  with assms obtain xs where "pc \<noteq> AtSend" "fn \<noteq> None"
    "observed s = xs @ [Ran r, Closed r]" "Closed r \<notin> set xs"
    by auto
  with DoneClosed show ?thesis
    by (auto intro: exI [of _ xs])
qed

lemma do_uninterrupted:
  assumes "\<not> exited s"
  shows "do_run vm r (Some bs) (AtSend, Selecting, s)
           [Handoff, FnReturn, CloseDone, DrainCheck, ReturnDo] =
         Inr (Returned, Selecting, eval_case vm r bs s)"
  using assms
  by (simp add: Let_def eval_case_def break_if_drained_observed run_script_frame)


lemma eval_case_eq:
  "eval_case vm r bs s =
     break_if_drained ((run_script vm bs s)\<lparr>observed := observed s @ [Ran r, Closed r]\<rparr>)"
  by (simp add: eval_case_def Let_def run_script_frame)

text \<open>
  C3. Take a state the loop can reach, a request whose \<open>done\<close> channel \<open>r\<close> has not
  been handed to the loop before, and any run of \<open>do\<close> and the loop from there in which
  the loop is not handed \<open>r\<close> a second time. At every point of such a run, \<open>done\<close>
  has been closed exactly once if the loop is past \<open>close(req.done)\<close>, and not at all
  otherwise. It is closed only for a function that returns, and in the record the close
  follows the return of the function directly. The caller has returned only if \<open>done\<close>
  is closed; while the function runs, and until the close, the caller is still in its
  receive. When the function returns and the loop has not exited, the uninterrupted run
  ends with the caller returned, in the state the script of the function left, with the
  return and the close recorded and the check after the close made; this is also the
  state the \<open>evalQueue\<close> case of the loop gives.
\<close>

theorem request_completion:
  assumes "runEventLoop vm New es = Inr s" and "requests_of r es = 0"
    and "do_run vm r fn (AtSend, Selecting, s) evs = Inr (pc, ph, s')"
    and "requests_of r (other_events evs) = 0"
  shows "count_list (observed s') (Closed r) =
           (if ph = DoneClosed \<or> (ph = Selecting \<and> pc \<noteq> AtSend) then 1 else 0) \<and>
         (Closed r \<in> set (observed s') \<longrightarrow>
            (\<exists>bs. fn = Some bs) \<and> (\<exists>xs ys. observed s' = xs @ Ran r # Closed r # ys)) \<and>
         (pc = Returned \<longrightarrow> Closed r \<in> set (observed s')) \<and>
         (ph = Running \<or> ph = FnReturned \<longrightarrow> pc = AtReceive) \<and>
         (\<forall>bs. fn = Some bs \<and> \<not> exited s \<longrightarrow>
            do_run vm r fn (AtSend, Selecting, s)
              [Handoff, FnReturn, CloseDone, DrainCheck, ReturnDo] =
              Inr (Returned, Selecting,
                   break_if_drained
                     ((run_script vm bs s)\<lparr>observed := observed s @ [Ran r, Closed r]\<rparr>)) \<and>
            step vm s (EvalReq r bs) =
              Inr (break_if_drained
                     ((run_script vm bs s)\<lparr>observed := observed s @ [Ran r, Closed r]\<rparr>)))"
proof -
  have "count_list (observed s) (Closed r) = 0"
    using runEventLoop_Closed [OF assms(1), of r] assms(2) by (simp add: New_def)
  then have "Closed r \<notin> set (observed s)"
    by (simp add: count_list_0_iff)
  then have "do_inv r fn (AtSend, Selecting, s)"
    by simp
  from do_inv_read [OF do_run_inv [OF this assms(3,4)]]
  have general: "count_list (observed s') (Closed r) =
           (if ph = DoneClosed \<or> (ph = Selecting \<and> pc \<noteq> AtSend) then 1 else 0) \<and>
         (Closed r \<in> set (observed s') \<longrightarrow>
            (\<exists>bs. fn = Some bs) \<and> (\<exists>xs ys. observed s' = xs @ Ran r # Closed r # ys)) \<and>
         (pc = Returned \<longrightarrow> Closed r \<in> set (observed s')) \<and>
         (ph = Running \<or> ph = FnReturned \<longrightarrow> pc = AtReceive)" .
  have "\<forall>bs. fn = Some bs \<and> \<not> exited s \<longrightarrow>
            do_run vm r fn (AtSend, Selecting, s)
              [Handoff, FnReturn, CloseDone, DrainCheck, ReturnDo] =
              Inr (Returned, Selecting,
                   break_if_drained
                     ((run_script vm bs s)\<lparr>observed := observed s @ [Ran r, Closed r]\<rparr>)) \<and>
            step vm s (EvalReq r bs) =
              Inr (break_if_drained
                     ((run_script vm bs s)\<lparr>observed := observed s @ [Ran r, Closed r]\<rparr>))"
    using do_uninterrupted [of s vm r] by (auto simp: eval_case_eq)
  with general show ?thesis
    by blast
qed


text \<open>
  The theorem for a second request, whose function schedules a timer that expires
  before \<open>done\<close> is closed. A caller that tries to return before the close is blocked,
  and so is the loop when the function never returns.
\<close>

theorem request_completion_witness:
  "do_run example_vm 1 (Some [CallSetTimeout (schedule 10)])
     (AtSend, Selecting, state_after [EvalReq 0 []])
     [Handoff, FnReturn, Loop (Expire 0), CloseDone, DrainCheck, ReturnDo] =
     Inr (Returned, Selecting,
          state_after [EvalReq 0 [], EvalReq 1 [CallSetTimeout (schedule 10)], Expire 0]) \<and>
   observed (state_after [EvalReq 0 [], EvalReq 1 [CallSetTimeout (schedule 10)], Expire 0]) =
     [Ran 0, Closed 0, Ran 1, Closed 1] \<and>
   count_list
     (observed (state_after [EvalReq 0 [], EvalReq 1 [CallSetTimeout (schedule 10)], Expire 0]))
     (Closed 1) = 1 \<and>
   0 \<in> registry (state_after [EvalReq 0 [], EvalReq 1 [CallSetTimeout (schedule 10)], Expire 0]) \<and>
   do_run example_vm 1 (Some [CallSetTimeout (schedule 10)])
     (AtSend, Selecting, state_after [EvalReq 0 []]) [Handoff, FnReturn, ReturnDo] = Inl Blocked \<and>
   do_run example_vm 1 None
     (AtSend, Selecting, state_after [EvalReq 0 []]) [Handoff, FnReturn] = Inl Blocked"
proof -
  let ?s = "state_after [EvalReq 0 []]"
  let ?s' = "state_after [EvalReq 0 [], EvalReq 1 [CallSetTimeout (schedule 10)], Expire 0]"
  let ?fn = "Some [CallSetTimeout (schedule 10)]"
  have reach: "runEventLoop example_vm New [EvalReq 0 []] = Inr ?s"
    by (simp add: loop_eval)
  have fresh: "requests_of 1 [EvalReq 0 []] = 0"
    by simp
  have run: "do_run example_vm 1 ?fn (AtSend, Selecting, ?s)
      [Handoff, FnReturn, Loop (Expire 0), CloseDone, DrainCheck, ReturnDo] =
      Inr (Returned, Selecting, ?s')"
    by (simp add: loop_eval)
  have others: "requests_of 1
      (other_events [Handoff, FnReturn, Loop (Expire 0), CloseDone, DrainCheck, ReturnDo]) = 0"
    by simp
  from request_completion [OF reach fresh run others, THEN conjunct1]
  have once: "count_list (observed ?s') (Closed 1) = 1"
    by simp
  have obs: "observed ?s' = [Ran 0, Closed 0, Ran 1, Closed 1]"
    by (simp add: loop_eval)
  have reg: "0 \<in> registry ?s'"
    by (simp add: loop_eval)
  have early: "do_run example_vm 1 ?fn (AtSend, Selecting, ?s) [Handoff, FnReturn, ReturnDo] =
      Inl Blocked"
    by (simp add: loop_eval)
  have never: "do_run example_vm 1 None (AtSend, Selecting, ?s) [Handoff, FnReturn] = Inl Blocked"
    by (simp add: loop_eval)
  from run obs once reg early never show ?thesis
    by (intro conjI)
qed

subsection \<open>Shell and files\<close>

text \<open>
  C8. For a command whose text the interpreter can convert, \<open>shellExec\<close> returns an
  object with the two properties \<open>stdout\<close> and \<open>stderr\<close>, whatever the command does.
  Provided the host's error text for a failed run is not empty (Go's \<open>os/exec\<close> reports
  a failed command as \<open>exit status N\<close> or a similar text), \<open>stderr\<close> is empty exactly
  when the command succeeded.
\<close>

theorem shellExec_never_raises:
  assumes "ToString vm (Argument c 0) = Some cmd" and "failure (sh cmd) \<noteq> Some []"
  shows "\<exists>out err.
           shellExec vm sh c =
             ObjectValue [(''stdout'', StringValue out), (''stderr'', StringValue err)] \<and>
           (err = [] \<longleftrightarrow> failure (sh cmd) = None)"
  using assms by (auto simp: shellExec_def CombinedOutput_def split: option.splits)

text \<open>The theorem for a command that fails and for one that succeeds.\<close>

theorem shellExec_never_raises_witness:
  "(\<exists>out err.
      shellExec example_vm example_sh \<lparr>ArgumentList = [StringValue ''ls nothere'']\<rparr> =
        ObjectValue [(''stdout'', StringValue out), (''stderr'', StringValue err)] \<and>
      err \<noteq> []) \<and>
   (\<exists>out err.
      shellExec example_vm example_sh \<lparr>ArgumentList = [StringValue ''echo hi'']\<rparr> =
        ObjectValue [(''stdout'', StringValue out), (''stderr'', StringValue err)] \<and>
      err = [])"
  using shellExec_never_raises [of example_vm "\<lparr>ArgumentList = [StringValue ''ls nothere'']\<rparr>"
      "''ls nothere''" example_sh]
    shellExec_never_raises [of example_vm "\<lparr>ArgumentList = [StringValue ''echo hi'']\<rparr>"
      "''echo hi''" example_sh]
  by (simp add: example_vm_def example_sh_def Argument_def)

text \<open>
  C10. The \<open>stdout\<close> property is everything the command wrote to its standard output
  and its standard error, in the order written. The \<open>stderr\<close> property is the text of
  the host's error when the run failed and empty otherwise; what the command wrote to its
  standard error does not enter it.
\<close>

theorem shellExec_fields:
  assumes "ToString vm (Argument c 0) = Some cmd"
  shows "shellExec vm sh c =
           ObjectValue
             [(''stdout'', StringValue (concat (map snd (written (sh cmd))))),
              (''stderr'', StringValue (case failure (sh cmd) of None \<Rightarrow> [] | Some msg \<Rightarrow> msg))]"
  using assms by (simp add: shellExec_def CombinedOutput_def)

text \<open>
  The theorem for a failing command that writes to both streams: \<open>stderr\<close> is the
  exit status text, while what the command wrote to its standard error is in \<open>stdout\<close>.
\<close>

theorem shellExec_fields_witness:
  "shellExec example_vm example_sh \<lparr>ArgumentList = [StringValue ''ls nothere'']\<rparr> =
     ObjectValue [(''stdout'', StringValue ''listingNo such file or directory''),
                  (''stderr'', StringValue ''exit status 2'')] \<and>
   stream_text Stderr (example_sh ''ls nothere'') = ''No such file or directory''"
  using shellExec_fields [of example_vm "\<lparr>ArgumentList = [StringValue ''ls nothere'']\<rparr>"
      "''ls nothere''" example_sh]
  by (simp add: example_vm_def example_sh_def Argument_def stream_text_def)

text \<open>
  C9. When \<open>writeFile\<close> reports success, \<open>readFile\<close> of the same path argument, in
  any later state of the host in which that path still holds what was written, returns
  the written content as a string.
\<close>

theorem writeFile_readFile:
  assumes "writeFile vm c f = (TrueValue, f')" and "ToString vm (Argument c 0) = Some file"
    and "Argument c' 0 = Argument c 0" and "files f'' file = files f' file"
  shows "\<exists>content. ToString vm (Argument c 1) = Some content \<and>
                   readFile vm c' f'' = StringValue content"
  using assms
  by (auto simp: writeFile_def readFile_def WriteFile_def ReadFile_def
      split: option.splits sum.splits if_splits)

text \<open>The theorem for \<open>writeFile("a.txt", "hello")\<close> on a host without files.\<close>

theorem writeFile_readFile_witness:
  "fst (writeFile example_vm \<lparr>ArgumentList = [StringValue ''a.txt'', StringValue ''hello'']\<rparr>
          example_files) = TrueValue \<and>
   readFile example_vm \<lparr>ArgumentList = [StringValue ''a.txt'']\<rparr>
     (snd (writeFile example_vm \<lparr>ArgumentList = [StringValue ''a.txt'', StringValue ''hello'']\<rparr>
             example_files)) = StringValue ''hello''"
  using writeFile_readFile [of example_vm
      "\<lparr>ArgumentList = [StringValue ''a.txt'', StringValue ''hello'']\<rparr>" example_files
      "snd (writeFile example_vm \<lparr>ArgumentList = [StringValue ''a.txt'', StringValue ''hello'']\<rparr>
              example_files)"
      "''a.txt''" "\<lparr>ArgumentList = [StringValue ''a.txt'']\<rparr>"
      "snd (writeFile example_vm \<lparr>ArgumentList = [StringValue ''a.txt'', StringValue ''hello'']\<rparr>
              example_files)"]
  by (simp add: example_vm_def example_files_def Argument_def writeFile_def WriteFile_def)

subsection \<open>Cancelled timers\<close>

lemma stop_case_immediate:
  assumes "\<not> w \<or> registry s = {}"
  shows "stop_case w s = finish (s\<lparr>waitForCallbacks := w\<rparr>)"
  using assms by (auto simp: stop_case_def Let_def)

lemma finish_stops_registered:
  "registry (finish s) = {} \<and> exited (finish s) \<and>
   (\<forall>h\<in>registry s. \<forall>t. heap (finish s) h = Some t \<longrightarrow> timer t = None)"
  by (auto simp: finish_def)

text \<open>
  C1, where the code departs from it. The timer case of the loop never looks the
  received timer up in the registry. First run: \<open>setTimeout(cb, 10)\<close> expires, and
  before the loop receives it a request calls \<open>clearTimeout\<close> on it; the registry is
  empty and the callback has not been called, yet the loop then calls it. Second run:
  the callback of \<open>setInterval(cb, 10)\<close> calls \<open>clearInterval\<close> on its own timer; the
  loop arms the timer again all the same, it expires again, and the callback is called a
  second time although the registry is empty.
\<close>

theorem cancelled_timer_fires:
  "(\<exists>s s'. runEventLoop example_vm New
             [EvalReq 0 [CallSetTimeout (schedule 10)], Expire 0,
              EvalReq 1 [CallClearTimeout (clear 0)]] = Inr s \<and>
           registry s = {} \<and> calls_of 0 (observed s) = 0 \<and>
           step example_vm s (TimerReady 0 [] None) = Inr s' \<and>
           observed s' = observed s @ [Call 0 [Some cb]]) \<and>
   (\<exists>s s'. runEventLoop example_vm New
             [EvalReq 0 [CallSetInterval (schedule 10)], Expire 0,
              TimerReady 0 [CallClearTimeout (clear 0)] None, Expire 0] = Inr s \<and>
           registry s = {} \<and> calls_of 0 (observed s) = 1 \<and>
           step example_vm s (TimerReady 0 [] None) = Inr s' \<and>
           observed s' = observed s @ [Call 0 [Some cb]])"
  by (simp add: loop_eval)

text \<open>
  C2, where the code departs from it. \<open>setInterval(cb, 10)\<close> is registered and the loop
  receives \<open>Stop(true)\<close>. The timer fires and its callback calls \<open>clearInterval\<close> on it.
  The registry is now empty and the loop is draining, but it has not exited, and the
  timer is armed again; \<open>Stop\<close> is still blocked. When a later request makes the loop
  exit, the timer is still armed: it was not in the registry, so nothing stopped it.
\<close>

theorem drain_not_terminating:
  "(\<exists>s. runEventLoop example_vm New
           [EvalReq 0 [CallSetInterval (schedule 10)], StopSignal True, Expire 0,
            TimerReady 0 [CallClearTimeout (clear 0)] None] = Inr s \<and>
         waitForCallbacks s \<and> registry s = {} \<and> \<not> exited s \<and>
         map_option timer (heap s 0) = Some (Some 10000000)) \<and>
   JSRE_Stop example_vm True [Expire 0, TimerReady 0 [CallClearTimeout (clear 0)] None]
     (state_after [EvalReq 0 [CallSetInterval (schedule 10)]]) = Inl Blocked \<and>
   (\<exists>s. runEventLoop example_vm New
           [EvalReq 0 [CallSetInterval (schedule 10)], StopSignal True, Expire 0,
            TimerReady 0 [CallClearTimeout (clear 0)] None, EvalReq 1 []] = Inr s \<and>
         exited s \<and> map_option timer (heap s 0) = Some (Some 10000000))"
  by (simp add: loop_eval JSRE_Stop_def)

end
